theory Spec2Isabelle
  imports
    Main
    "HOL-Library.AList"
    "HOL-Library.Signed_Division"
    "HOL-Library.Sublist"
    "HOL-Library.Word"
begin

section \<open>Messages (models.go)\<close>

text \<open>
  Wall-clock readings (\<^verbatim>\<open>time.Now()\<close>) are inputs of the operations; a reading is an
  opaque number, and an operation that reads the clock more than once is given one reading
  for all of them. No property below depends on a timestamp.
\<close>

type_synonym Time = nat

record ErrorData =
  Code :: string
  ErrMessage :: string

text \<open>
  \<^verbatim>\<open>MessageData.Payload\<close> is an \<^verbatim>\<open>interface{}\<close>. The values the program stores in it are:
  nothing (the zero value), the JSON value sent by a publisher (opaque text here), a plain
  string, the map \<^verbatim>\<open>{"status": s}\<close> of an acknowledgement, and an \<^verbatim>\<open>ErrorData\<close>.
\<close>

datatype Payload =
    PNil
  | PJson string
  | PString string
  | PStatus string
  | PError ErrorData

record MessageData =
  ID :: string
  Payload :: Payload

record EventResponse =
  Type :: string
  Topic :: string
  Message :: MessageData
  Timestamp :: Time

text \<open>The zero value of \<^verbatim>\<open>EventResponse\<close>, which \<^verbatim>\<open>make\<close> fills a fresh slice with.\<close>

definition zeroEvent :: EventResponse where
  "zeroEvent = \<lparr>Type = [], Topic = [], Message = \<lparr>ID = [], Payload = PNil\<rparr>, Timestamp = 0\<rparr>"

section \<open>Run-time panics\<close>

datatype panic = IndexOutOfRange | DivideByZero | NegativeLen | NilDereference

text \<open>\<^verbatim>\<open>xs[i]\<close> read and written, with the bounds check of the Go run time.\<close>

definition index_get :: "'a list \<Rightarrow> int \<Rightarrow> panic + 'a" where
  "index_get xs i =
     (if 0 \<le> i \<and> i < int (length xs) then Inr (xs ! nat i) else Inl IndexOutOfRange)"

definition index_set :: "'a list \<Rightarrow> int \<Rightarrow> 'a \<Rightarrow> panic + 'a list" where
  "index_set xs i v =
     (if 0 \<le> i \<and> i < int (length xs) then Inr (xs[nat i := v]) else Inl IndexOutOfRange)"

text \<open>\<^verbatim>\<open>a % b\<close> on Go integers: the remainder truncates towards zero, and b = 0 panics.\<close>

definition rem :: "int \<Rightarrow> int \<Rightarrow> panic + int" where
  "rem a b = (if b = 0 then Inl DivideByZero else Inr (a smod b))"

text \<open>A loop that fills a slice element by element and stops at the first panic.\<close>

fun mapE :: "('a \<Rightarrow> panic + 'b) \<Rightarrow> 'a list \<Rightarrow> panic + 'b list" where
  "mapE f [] = Inr []"
| "mapE f (x # xs) =
     (case f x of
        Inl p \<Rightarrow> Inl p
      | Inr y \<Rightarrow> (case mapE f xs of Inl p \<Rightarrow> Inl p | Inr ys \<Rightarrow> Inr (y # ys)))"

section \<open>The ring buffer (ringbuffer.go)\<close>

text \<open>
  The fields of \<^verbatim>\<open>RingBuffer\<close>; the mutex is left out, every operation runs under it as a
  whole. The Go \<^verbatim>\<open>int\<close> fields are mathematical integers: under the invariant \<open>rb_inv\<close>
  below they stay between 0 and the capacity, which is the length of an allocated slice,
  so that no increment can wrap.
\<close>

record RingBuffer =
  buffer :: "EventResponse list"
  head :: int
  tail :: int
  size_rb :: int
  capacity :: int
  full :: bool

definition NewRingBuffer :: "int \<Rightarrow> panic + RingBuffer" where
  "NewRingBuffer cap =
     (if cap < 0 then Inl NegativeLen
      else Inr \<lparr>buffer = replicate (nat cap) zeroEvent, head = 0, tail = 0, size_rb = 0,
                capacity = cap, full = False\<rparr>)"

definition Push :: "EventResponse \<Rightarrow> RingBuffer \<Rightarrow> panic + RingBuffer" where
  "Push message rb =
     (case index_set (buffer rb) (head rb) message of
        Inl p \<Rightarrow> Inl p
      | Inr b \<Rightarrow>
          (case rem (head rb + 1) (capacity rb) of
             Inl p \<Rightarrow> Inl p
           | Inr h \<Rightarrow>
               (let rb1 = rb\<lparr>buffer := b, head := h\<rparr> in
                if full rb1 then
                  (case rem (tail rb1 + 1) (capacity rb1) of
                     Inl p \<Rightarrow> Inl p
                   | Inr t \<Rightarrow> Inr (rb1\<lparr>tail := t\<rparr>))
                else
                  (let rb2 = rb1\<lparr>size_rb := size_rb rb1 + 1\<rparr> in
                   if size_rb rb2 = capacity rb2 then Inr (rb2\<lparr>full := True\<rparr>)
                   else Inr rb2))))"

definition Pop :: "RingBuffer \<Rightarrow> panic + (EventResponse option \<times> RingBuffer)" where
  "Pop rb =
     (if size_rb rb = 0 then Inr (None, rb)
      else
        (case index_get (buffer rb) (tail rb) of
           Inl p \<Rightarrow> Inl p
         | Inr message \<Rightarrow>
             (case rem (tail rb + 1) (capacity rb) of
                Inl p \<Rightarrow> Inl p
              | Inr t \<Rightarrow>
                  Inr (Some message,
                       rb\<lparr>tail := t, size_rb := size_rb rb - 1, full := False\<rparr>))))"

text \<open>
  The copying loop shared by \<^verbatim>\<open>PopAll\<close> and \<^verbatim>\<open>GetLastN\<close>:
  \<^verbatim>\<open>for i := 0; i < count; i++ { messages[i] = rb.buffer[(start+i)%rb.capacity] }\<close>.
\<close>

definition copy_from :: "RingBuffer \<Rightarrow> int \<Rightarrow> int \<Rightarrow> panic + EventResponse list" where
  "copy_from rb start count =
     (if count < 0 then Inl NegativeLen
      else
        mapE (\<lambda>i. case rem (start + int i) (capacity rb) of
                     Inl p \<Rightarrow> Inl p
                   | Inr j \<Rightarrow> index_get (buffer rb) j)
             [0..<nat count])"

definition PopAll :: "RingBuffer \<Rightarrow> panic + (EventResponse list \<times> RingBuffer)" where
  "PopAll rb =
     (if size_rb rb = 0 then Inr ([], rb)
      else
        (case copy_from rb (tail rb) (size_rb rb) of
           Inl p \<Rightarrow> Inl p
         | Inr messages \<Rightarrow>
             Inr (messages, rb\<lparr>head := 0, tail := 0, size_rb := 0, full := False\<rparr>)))"

definition GetLastN :: "int \<Rightarrow> RingBuffer \<Rightarrow> panic + EventResponse list" where
  "GetLastN n rb =
     (if size_rb rb = 0 \<or> n \<le> 0 then Inr []
      else
        (let count = (if n > size_rb rb then size_rb rb else n);
             start = head rb - count;
             start = (if start < 0 then start + capacity rb else start)
         in copy_from rb start count))"

definition Size :: "RingBuffer \<Rightarrow> int" where
  "Size rb = size_rb rb"

definition IsFull :: "RingBuffer \<Rightarrow> bool" where
  "IsFull rb = full rb"

definition Clear :: "RingBuffer \<Rightarrow> RingBuffer" where
  "Clear rb = rb\<lparr>head := 0, tail := 0, size_rb := 0, full := False\<rparr>"

subsection \<open>Well-formed buffers and their logical contents\<close>

text \<open>
  The representation invariant. \<^verbatim>\<open>NewRingBuffer\<close> with a positive capacity establishes
  it and every operation keeps it.
\<close>

definition rb_inv :: "RingBuffer \<Rightarrow> bool" where
  "rb_inv rb \<longleftrightarrow>
     0 < capacity rb \<and> int (length (buffer rb)) = capacity rb \<and>
     0 \<le> head rb \<and> head rb < capacity rb \<and>
     0 \<le> tail rb \<and> tail rb < capacity rb \<and>
     0 \<le> size_rb rb \<and> size_rb rb \<le> capacity rb \<and>
     head rb = (tail rb + size_rb rb) mod capacity rb \<and>
     (full rb \<longleftrightarrow> size_rb rb = capacity rb)"

text \<open>The events a buffer holds, oldest first: \<open>size_rb\<close> slots starting at \<open>tail\<close>.\<close>

definition contents :: "RingBuffer \<Rightarrow> EventResponse list" where
  "contents rb =
     map (\<lambda>i. buffer rb ! nat ((tail rb + int i) mod capacity rb)) [0..<nat (size_rb rb)]"

text \<open>The last \<open>k\<close> elements of a list.\<close>

definition last_k :: "nat \<Rightarrow> 'a list \<Rightarrow> 'a list" where
  "last_k k xs = drop (length xs - k) xs"

section \<open>The pub-sub core (pubsub.go)\<close>

definition DefaultBufferSize :: int where
  "DefaultBufferSize = 100"

definition TopicHistoryBufferSize :: int where
  "TopicHistoryBufferSize = 1000"

text \<open>
  A \<^verbatim>\<open>chan EventResponse\<close> value is a reference to a channel object; the objects live in a
  store, and a reference with no object behind it is the nil channel. A channel object is
  its queue of buffered events and its capacity. The core only ever sends without
  blocking (\<^verbatim>\<open>select\<close> with a \<^verbatim>\<open>default\<close> branch); closing a channel is the business of the
  connection that owns it and is not part of the core.
\<close>

record Channel =
  queue :: "EventResponse list"
  chan_cap :: nat

type_synonym chan_store = "(nat \<times> Channel) list"

text \<open>
  \<^verbatim>\<open>select { case ch <- e: ... default: ... }\<close>: the send happens when the buffer has room;
  the result says which branch ran.
\<close>

definition offer :: "nat \<Rightarrow> EventResponse \<Rightarrow> chan_store \<Rightarrow> bool \<times> chan_store" where
  "offer r e cs =
     (case map_of cs r of
        None \<Rightarrow> (False, cs)
      | Some ch \<Rightarrow>
          if length (queue ch) < chan_cap ch
          then (True, AList.update r (ch\<lparr>queue := queue ch @ [e]\<rparr>) cs)
          else (False, cs))"

record PubSubClient =
  ClientID :: string
  Buffer :: RingBuffer
  WriteChan :: nat
  LastActive :: Time
  Connected :: bool

text \<open>
  \<^verbatim>\<open>Subscriber.Client\<close> is a pointer to the \<^verbatim>\<open>PubSubClient\<close> that \<^verbatim>\<open>Subscribe\<close> found or
  registered in \<^verbatim>\<open>ps.clients\<close>. Entries of \<^verbatim>\<open>ps.clients\<close> are never replaced or removed, so
  the pointer is the key of that entry: \<^verbatim>\<open>ps.clients\<close> is the store of client objects, and
  a write through the pointer is an update of the entry.
\<close>

record Subscriber =
  sub_ClientID :: string
  sub_Topic :: string
  sub_Client :: string

text \<open>\<^verbatim>\<open>MessageCount\<close> is an \<^verbatim>\<open>int64\<close>: its increment wraps.\<close>

record Topic =
  Name :: string
  Subscribers :: "(string \<times> Subscriber) list"
  MessageCount :: "64 word"
  CreatedAt :: Time
  MessageHistory :: RingBuffer

text \<open>
  The three registries of \<^verbatim>\<open>PubSubSystem\<close> (Go maps, as association lists read through
  \<open>map_of\<close>; the order of a list is the order in which a \<^verbatim>\<open>range\<close> loop visits the map).
  The locks and \<^verbatim>\<open>startTime\<close> are left out: each operation runs as a whole.
\<close>

record PubSubSystem =
  topics :: "(string \<times> Topic) list"
  clients :: "(string \<times> PubSubClient) list"
  clientTopics :: "(string \<times> (string \<times> bool) list) list"

text \<open>The system together with the channel objects its clients' \<^verbatim>\<open>WriteChan\<close> refer to.\<close>

record World = PubSubSystem +
  chans :: chan_store

datatype error =
    TopicAlreadyExists string
  | TopicNotFound string
  | NotSubscribed string string

definition NewPubSubSystem :: PubSubSystem where
  "NewPubSubSystem = \<lparr>topics = [], clients = [], clientTopics = []\<rparr>"

text \<open>A fresh system next to the channels that exist.\<close>

definition init :: "chan_store \<Rightarrow> World" where
  "init cs = \<lparr>topics = [], clients = [], clientTopics = [], chans = cs\<rparr>"

definition CreateTopic :: "string \<Rightarrow> Time \<Rightarrow> World \<Rightarrow> panic + (error option \<times> World)" where
  "CreateTopic name now ps =
     (case map_of (topics ps) name of
        Some _ \<Rightarrow> Inr (Some (TopicAlreadyExists name), ps)
      | None \<Rightarrow>
          (case NewRingBuffer TopicHistoryBufferSize of
             Inl p \<Rightarrow> Inl p
           | Inr rb \<Rightarrow>
               Inr (None,
                    ps\<lparr>topics :=
                         AList.update name
                           \<lparr>Name = name, Subscribers = [], MessageCount = 0,
                            CreatedAt = now, MessageHistory = rb\<rparr>
                           (topics ps)\<rparr>)))"

text \<open>
  \<^verbatim>\<open>delete(clientTopics, name); if len(clientTopics) == 0 { delete(ps.clientTopics, id) }\<close>,
  the same two statements in \<^verbatim>\<open>DeleteTopic\<close> and \<^verbatim>\<open>Unsubscribe\<close>, where \<open>ct\<close> is the map
  found under \<open>clientID\<close>.
\<close>

definition drop_topic ::
  "string \<Rightarrow> (string \<times> bool) list \<Rightarrow> string \<Rightarrow>
   (string \<times> (string \<times> bool) list) list \<Rightarrow> (string \<times> (string \<times> bool) list) list" where
  "drop_topic clientID ct name cts =
     (let ct' = AList.delete name ct in
      if length ct' = 0 then AList.delete clientID cts
      else AList.update clientID ct' cts)"

text \<open>
  The body of the loop of \<^verbatim>\<open>DeleteTopic\<close> over the subscribers: offer the notice to the
  subscriber's channel, then remove the topic from the client's topic set. \<open>newid\<close> gives
  the fresh identifier \<^verbatim>\<open>uuid.New()\<close> draws for each subscriber.
\<close>

fun DeleteTopic_loop ::
  "string \<Rightarrow> Time \<Rightarrow> (string \<Rightarrow> string) \<Rightarrow> Subscriber list \<Rightarrow> World \<Rightarrow> panic + World" where
  "DeleteTopic_loop name now newid [] ps = Inr ps"
| "DeleteTopic_loop name now newid (subscriber # rest) ps =
     (case map_of (clients ps) (sub_Client subscriber) of
        None \<Rightarrow> Inl NilDereference
      | Some client \<Rightarrow>
          (let notice = \<lparr>Type = ''info'', Topic = name,
                         Message = \<lparr>ID = newid (sub_ClientID subscriber),
                                    Payload = PString ''topic_deleted''\<rparr>,
                         Timestamp = now\<rparr>;
               ps1 = ps\<lparr>chans := snd (offer (WriteChan client) notice (chans ps))\<rparr>;
               ps2 = (case map_of (clientTopics ps1) (sub_ClientID subscriber) of
                        Some ct \<Rightarrow>
                          ps1\<lparr>clientTopics :=
                                drop_topic (sub_ClientID subscriber) ct name (clientTopics ps1)\<rparr>
                      | None \<Rightarrow> ps1)
           in DeleteTopic_loop name now newid rest ps2))"

definition DeleteTopic ::
  "string \<Rightarrow> Time \<Rightarrow> (string \<Rightarrow> string) \<Rightarrow> World \<Rightarrow> panic + (error option \<times> World)" where
  "DeleteTopic name now newid ps =
     (case map_of (topics ps) name of
        None \<Rightarrow> Inr (Some (TopicNotFound name), ps)
      | Some topic \<Rightarrow>
          (case DeleteTopic_loop name now newid (map snd (Subscribers topic)) ps of
             Inl p \<Rightarrow> Inl p
           | Inr ps1 \<Rightarrow> Inr (None, ps1\<lparr>topics := AList.delete name (topics ps1)\<rparr>)))"

definition Subscribe ::
  "string \<Rightarrow> string \<Rightarrow> int \<Rightarrow> nat \<Rightarrow> Time \<Rightarrow> World \<Rightarrow>
   panic + ((EventResponse list \<times> error option) \<times> World)" where
  "Subscribe clientID topicName lastN writeChan now ps =
     (case map_of (topics ps) topicName of
        None \<Rightarrow> Inr (([], Some (TopicNotFound topicName)), ps)
      | Some topic \<Rightarrow>
          (let ct = (case map_of (clientTopics ps) clientID of None \<Rightarrow> [] | Some m \<Rightarrow> m);
               ps1 = ps\<lparr>clientTopics :=
                          AList.update clientID (AList.update topicName True ct)
                            (clientTopics ps)\<rparr>
           in
           (case (case map_of (clients ps1) clientID of
                    None \<Rightarrow>
                      (case NewRingBuffer DefaultBufferSize of
                         Inl p \<Rightarrow> Inl p
                       | Inr rb \<Rightarrow>
                           Inr \<lparr>ClientID = clientID, Buffer = rb, WriteChan = writeChan,
                                LastActive = now, Connected = True\<rparr>)
                  | Some client \<Rightarrow>
                      Inr (client\<lparr>WriteChan := writeChan, Connected := True,
                                  LastActive := now\<rparr>)) of
              Inl p \<Rightarrow> Inl p
            | Inr client \<Rightarrow>
                (let ps2 = ps1\<lparr>clients := AList.update clientID client (clients ps1)\<rparr>;
                     subscriber = \<lparr>sub_ClientID = clientID, sub_Topic = topicName,
                                   sub_Client = clientID\<rparr>;
                     topic' = topic\<lparr>Subscribers :=
                                      AList.update clientID subscriber (Subscribers topic)\<rparr>;
                     ps3 = ps2\<lparr>topics := AList.update topicName topic' (topics ps2)\<rparr>
                 in
                 (case (if lastN > 0 then GetLastN lastN (MessageHistory topic') else Inr []) of
                    Inl p \<Rightarrow> Inl p
                  | Inr lastMessages \<Rightarrow> Inr ((lastMessages, None), ps3))))))"

definition Unsubscribe :: "string \<Rightarrow> string \<Rightarrow> World \<Rightarrow> error option \<times> World" where
  "Unsubscribe clientID topicName ps =
     (case map_of (clientTopics ps) clientID of
        None \<Rightarrow> (Some (NotSubscribed clientID topicName), ps)
      | Some ct \<Rightarrow>
          if map_of ct topicName \<noteq> Some True
          then (Some (NotSubscribed clientID topicName), ps)
          else
            (let ps1 = ps\<lparr>clientTopics := drop_topic clientID ct topicName (clientTopics ps)\<rparr>
             in
             (case map_of (topics ps1) topicName of
                None \<Rightarrow> (Some (TopicNotFound topicName), ps1)
              | Some topic \<Rightarrow>
                  (None,
                   ps1\<lparr>topics :=
                         AList.update topicName
                           (topic\<lparr>Subscribers := AList.delete clientID (Subscribers topic)\<rparr>)
                           (topics ps1)\<rparr>))))"

text \<open>
  The fan-out loop of \<^verbatim>\<open>Publish\<close>. The sender's identifier is not among its inputs: the
  loop body never looks at it.
\<close>

fun Publish_loop :: "EventResponse \<Rightarrow> Time \<Rightarrow> Subscriber list \<Rightarrow> World \<Rightarrow> panic + World" where
  "Publish_loop event now [] ps = Inr ps"
| "Publish_loop event now (subscriber # rest) ps =
     (case map_of (clients ps) (sub_Client subscriber) of
        None \<Rightarrow> Inl NilDereference
      | Some client \<Rightarrow>
          if \<not> Connected client then Publish_loop event now rest ps
          else
            (case Push event (Buffer client) of
               Inl p \<Rightarrow> Inl p
             | Inr b \<Rightarrow>
                 (let (sent, cs) = offer (WriteChan client) event (chans ps);
                      client1 = client\<lparr>Buffer := b\<rparr>;
                      client2 = (if sent then client1\<lparr>LastActive := now\<rparr> else client1)
                  in Publish_loop event now rest
                       (ps\<lparr>clients := AList.update (sub_Client subscriber) client2 (clients ps),
                           chans := cs\<rparr>))))"

definition Publish ::
  "string \<Rightarrow> MessageData \<Rightarrow> string \<Rightarrow> Time \<Rightarrow> World \<Rightarrow> panic + (error option \<times> World)" where
  "Publish topicName message senderClientID now ps =
     (case map_of (topics ps) topicName of
        None \<Rightarrow> Inr (Some (TopicNotFound topicName), ps)
      | Some topic \<Rightarrow>
          (let event = \<lparr>Type = ''event'', Topic = topicName, Message = message,
                        Timestamp = now\<rparr>;
               topic1 = topic\<lparr>MessageCount := MessageCount topic + 1\<rparr>
           in
           (case Push event (MessageHistory topic1) of
              Inl p \<Rightarrow> Inl p
            | Inr h \<Rightarrow>
                (let topic2 = topic1\<lparr>MessageHistory := h\<rparr>;
                     ps1 = ps\<lparr>topics := AList.update topicName topic2 (topics ps)\<rparr>
                 in
                 (case Publish_loop event now (map snd (Subscribers topic2)) ps1 of
                    Inl p \<Rightarrow> Inl p
                  | Inr ps2 \<Rightarrow> Inr (None, ps2))))))"

text \<open>The loop of \<^verbatim>\<open>DisconnectClient\<close> over the keys of the client's topic set.\<close>

fun Disconnect_loop :: "string \<Rightarrow> string list \<Rightarrow> World \<Rightarrow> World" where
  "Disconnect_loop clientID [] ps = ps"
| "Disconnect_loop clientID (topicName # rest) ps =
     Disconnect_loop clientID rest
       (case map_of (topics ps) topicName of
          Some topic \<Rightarrow>
            ps\<lparr>topics :=
                 AList.update topicName
                   (topic\<lparr>Subscribers := AList.delete clientID (Subscribers topic)\<rparr>)
                   (topics ps)\<rparr>
        | None \<Rightarrow> ps)"

definition DisconnectClient :: "string \<Rightarrow> World \<Rightarrow> World" where
  "DisconnectClient clientID ps =
     (let ps1 = (case map_of (clients ps) clientID of
                   Some client \<Rightarrow>
                     ps\<lparr>clients :=
                          AList.update clientID (client\<lparr>Connected := False\<rparr>) (clients ps)\<rparr>
                 | None \<Rightarrow> ps)
      in
      (case map_of (clientTopics ps1) clientID of
         None \<Rightarrow> ps1
       | Some topicsMap \<Rightarrow>
           Disconnect_loop clientID (map fst topicsMap)
             (ps1\<lparr>clientTopics := AList.delete clientID (clientTopics ps1)\<rparr>)))"

subsection \<open>The locked sections of \<^verbatim>\<open>Subscribe\<close> and \<^verbatim>\<open>DisconnectClient\<close>\<close>

text \<open>
  No operation holds one lock from its first statement to its last. \<^verbatim>\<open>Subscribe\<close> looks
  the topic up, writes the client's topic set in one section under \<^verbatim>\<open>clientMutex\<close> (lines
  154 to 159), registers the client in a second one (lines 162 to 179), and only then,
  under the topic's own mutex, enters the client in the subscriber map (lines 182 to 199).
  \<^verbatim>\<open>DisconnectClient\<close> marks the client and deletes its topic set under \<^verbatim>\<open>clientMutex\<close> (lines
  395 to 406) and removes the client from the topics afterwards (lines 413 to 421). Between
  two sections of a call, calls of other goroutines can run. Each section is given here as
  a function of its own; run one after the other without interruption they are the
  operations above (\<open>Subscribe_sections\<close>, \<open>DisconnectClient_sections\<close> below).
\<close>

definition Subscribe_mark :: "string \<Rightarrow> string \<Rightarrow> World \<Rightarrow> World" where
  "Subscribe_mark clientID topicName ps =
     (let ct = (case map_of (clientTopics ps) clientID of None \<Rightarrow> [] | Some m \<Rightarrow> m)
      in ps\<lparr>clientTopics :=
              AList.update clientID (AList.update topicName True ct) (clientTopics ps)\<rparr>)"

definition Subscribe_register :: "string \<Rightarrow> nat \<Rightarrow> Time \<Rightarrow> World \<Rightarrow> panic + World" where
  "Subscribe_register clientID writeChan now ps =
     (case (case map_of (clients ps) clientID of
              None \<Rightarrow>
                (case NewRingBuffer DefaultBufferSize of
                   Inl p \<Rightarrow> Inl p
                 | Inr rb \<Rightarrow>
                     Inr \<lparr>ClientID = clientID, Buffer = rb, WriteChan = writeChan,
                          LastActive = now, Connected = True\<rparr>)
            | Some client \<Rightarrow>
                Inr (client\<lparr>WriteChan := writeChan, Connected := True, LastActive := now\<rparr>)) of
        Inl p \<Rightarrow> Inl p
      | Inr client \<Rightarrow> Inr (ps\<lparr>clients := AList.update clientID client (clients ps)\<rparr>))"

text \<open>
  The last section works on the topic object that the lookup at the start of the call
  returned a pointer to; \<open>topic\<close> is that object.
\<close>

definition Subscribe_attach ::
  "string \<Rightarrow> string \<Rightarrow> int \<Rightarrow> Topic \<Rightarrow> World \<Rightarrow>
   panic + ((EventResponse list \<times> error option) \<times> World)" where
  "Subscribe_attach clientID topicName lastN topic ps =
     (let subscriber = \<lparr>sub_ClientID = clientID, sub_Topic = topicName,
                         sub_Client = clientID\<rparr>;
          topic' = topic\<lparr>Subscribers :=
                           AList.update clientID subscriber (Subscribers topic)\<rparr>;
          ps' = ps\<lparr>topics := AList.update topicName topic' (topics ps)\<rparr>
      in
      (case (if lastN > 0 then GetLastN lastN (MessageHistory topic') else Inr []) of
         Inl p \<Rightarrow> Inl p
       | Inr lastMessages \<Rightarrow> Inr ((lastMessages, None), ps')))"

text \<open>
  The first section of \<^verbatim>\<open>DisconnectClient\<close> returns the topic set it found (the local
  variable \<^verbatim>\<open>topicsMap\<close>, with \<^verbatim>\<open>exists\<close>), which the second section loops over.
\<close>

definition Disconnect_mark ::
  "string \<Rightarrow> World \<Rightarrow> (string \<times> bool) list option \<times> World" where
  "Disconnect_mark clientID ps =
     (let ps1 = (case map_of (clients ps) clientID of
                   Some client \<Rightarrow>
                     ps\<lparr>clients :=
                          AList.update clientID (client\<lparr>Connected := False\<rparr>) (clients ps)\<rparr>
                 | None \<Rightarrow> ps)
      in
      (case map_of (clientTopics ps1) clientID of
         None \<Rightarrow> (None, ps1)
       | Some topicsMap \<Rightarrow>
           (Some topicsMap, ps1\<lparr>clientTopics := AList.delete clientID (clientTopics ps1)\<rparr>)))"

definition Disconnect_scrub ::
  "string \<Rightarrow> (string \<times> bool) list option \<Rightarrow> World \<Rightarrow> World" where
  "Disconnect_scrub clientID found ps =
     (case found of
        None \<Rightarrow> ps
      | Some topicsMap \<Rightarrow> Disconnect_loop clientID (map fst topicsMap) ps)"

section \<open>The connection session (websocket.go)\<close>

text \<open>
  Of a \<^verbatim>\<open>Client\<close>, the outbound channel and the client identifier; the system it points to
  is the \<open>World\<close> the handlers are run in.
\<close>

record Client =
  send :: nat
  clientID :: string

record SubscribeRequest =
  s_Type :: string
  s_Topic :: string
  s_ClientID :: string
  s_LastN :: int
  s_RequestID :: string

record UnsubscribeRequest =
  u_Type :: string
  u_Topic :: string
  u_ClientID :: string
  u_RequestID :: string

record PublishRequest =
  p_Type :: string
  p_Topic :: string
  p_Message :: MessageData
  p_ClientID :: string
  p_RequestID :: string

record PingRequest =
  pg_Type :: string
  pg_RequestID :: string

record AckResponse =
  a_Type :: string
  a_RequestID :: string
  a_Topic :: string
  a_Status :: string
  a_Timestamp :: Time

record ErrorResponse =
  e_Type :: string
  e_RequestID :: string
  e_Error :: ErrorData
  e_Timestamp :: Time

record PongResponse =
  po_Type :: string
  po_RequestID :: string
  po_Timestamp :: Time

text \<open>
  What \<^verbatim>\<open>ParseMessage\<close> returns for a frame: an error (of which only the text is used), or
  one of the four request structs. The JSON decoding itself is not modelled.
\<close>

datatype Incoming =
    SubscribeReq SubscribeRequest
  | UnsubscribeReq UnsubscribeRequest
  | PublishReq PublishRequest
  | PingReq PingRequest

datatype parsed = ParseError string | Parsed Incoming

text \<open>The argument of \<^verbatim>\<open>sendMessage\<close>, an \<^verbatim>\<open>interface{}\<close> inspected by a type switch.\<close>

datatype Outgoing =
    OutEvent EventResponse
  | OutAck AckResponse
  | OutError ErrorResponse
  | OutPong PongResponse
  | OutOther

text \<open>The text of the errors of the core, as \<^verbatim>\<open>fmt.Errorf\<close> formats them.\<close>

fun error_text :: "error \<Rightarrow> string" where
  "error_text (TopicAlreadyExists name) = ''topic '' @ name @ '' already exists''"
| "error_text (TopicNotFound name) = ''topic '' @ name @ '' not found''"
| "error_text (NotSubscribed client name) =
     ''client '' @ client @ '' is not subscribed to topic '' @ name"

definition sendMessage :: "Client \<Rightarrow> Outgoing \<Rightarrow> World \<Rightarrow> ErrorData option \<times> World" where
  "sendMessage c message ps =
     (case (case message of
              OutEvent msg \<Rightarrow> Some msg
            | OutAck msg \<Rightarrow>
                Some \<lparr>Type = a_Type msg, Topic = a_Topic msg,
                      Message = \<lparr>ID = a_RequestID msg, Payload = PStatus (a_Status msg)\<rparr>,
                      Timestamp = a_Timestamp msg\<rparr>
            | OutError msg \<Rightarrow>
                Some \<lparr>Type = e_Type msg, Topic = [],
                      Message = \<lparr>ID = e_RequestID msg, Payload = PError (e_Error msg)\<rparr>,
                      Timestamp = e_Timestamp msg\<rparr>
            | OutPong msg \<Rightarrow>
                Some \<lparr>Type = po_Type msg, Topic = [],
                      Message = \<lparr>ID = po_RequestID msg, Payload = PString ''pong''\<rparr>,
                      Timestamp = po_Timestamp msg\<rparr>
            | OutOther \<Rightarrow> None) of
        None \<Rightarrow>
          (Some \<lparr>Code = ''INTERNAL_ERROR'', ErrMessage = ''Unknown message type to send''\<rparr>, ps)
      | Some eventMsg \<Rightarrow>
          (let (sent, cs) = offer (send c) eventMsg (chans ps) in
           if sent then (None, ps\<lparr>chans := cs\<rparr>)
           else (Some \<lparr>Code = ''CLIENT_OVERLOADED'',
                       ErrMessage = ''Client send buffer is full''\<rparr>, ps)))"

text \<open>
  The loop of \<^verbatim>\<open>handleSubscribe\<close> that sends the history: a failed send is logged and the
  loop goes on.
\<close>

fun send_all :: "Client \<Rightarrow> EventResponse list \<Rightarrow> World \<Rightarrow> World" where
  "send_all c [] ps = ps"
| "send_all c (lastMsg # rest) ps = send_all c rest (snd (sendMessage c (OutEvent lastMsg) ps))"

definition handleSubscribe ::
  "Client \<Rightarrow> SubscribeRequest \<Rightarrow> Time \<Rightarrow> World \<Rightarrow> panic + (ErrorData option \<times> Client \<times> World)" where
  "handleSubscribe c req now ps =
     (if s_RequestID req = [] then
        Inr (Some \<lparr>Code = ''BAD_REQUEST'', ErrMessage = ''request_id is required''\<rparr>, c, ps)
      else if s_ClientID req = [] then
        Inr (Some \<lparr>Code = ''BAD_REQUEST'', ErrMessage = ''client_id is required''\<rparr>, c, ps)
      else if clientID c \<noteq> [] \<and> clientID c \<noteq> s_ClientID req then
        Inr (Some \<lparr>Code = ''BAD_REQUEST'',
                   ErrMessage = ''client_id mismatch with existing connection''\<rparr>, c, ps)
      else
        (let c1 = (if clientID c = [] then c\<lparr>clientID := s_ClientID req\<rparr> else c) in
         (case Subscribe (clientID c1) (s_Topic req) (s_LastN req) (send c1) now ps of
            Inl p \<Rightarrow> Inl p
          | Inr ((lastMessages, Some err), ps1) \<Rightarrow>
              (let (r, ps2) =
                 sendMessage c1
                   (OutError \<lparr>e_Type = ''error'', e_RequestID = s_RequestID req,
                              e_Error = \<lparr>Code = ''SUBSCRIBE_FAILED'',
                                         ErrMessage = error_text err\<rparr>,
                              e_Timestamp = now\<rparr>) ps1
               in Inr (r, c1, ps2))
          | Inr ((lastMessages, None), ps1) \<Rightarrow>
              (case sendMessage c1
                      (OutAck \<lparr>a_Type = ''ack'', a_RequestID = s_RequestID req,
                               a_Topic = s_Topic req, a_Status = ''ok'',
                               a_Timestamp = now\<rparr>) ps1 of
                 (Some e, ps2) \<Rightarrow> Inr (Some e, c1, ps2)
               | (None, ps2) \<Rightarrow> Inr (None, c1, send_all c1 lastMessages ps2)))))"

definition handleUnsubscribe ::
  "Client \<Rightarrow> UnsubscribeRequest \<Rightarrow> Time \<Rightarrow> World \<Rightarrow> ErrorData option \<times> Client \<times> World" where
  "handleUnsubscribe c req now ps =
     (if u_RequestID req = [] then
        (Some \<lparr>Code = ''BAD_REQUEST'', ErrMessage = ''request_id is required''\<rparr>, c, ps)
      else if u_ClientID req = [] then
        (Some \<lparr>Code = ''BAD_REQUEST'', ErrMessage = ''client_id is required''\<rparr>, c, ps)
      else if clientID c \<noteq> [] \<and> clientID c \<noteq> u_ClientID req then
        (Some \<lparr>Code = ''BAD_REQUEST'',
               ErrMessage = ''client_id mismatch with existing connection''\<rparr>, c, ps)
      else
        (let c1 = (if clientID c = [] then c\<lparr>clientID := u_ClientID req\<rparr> else c) in
         (case Unsubscribe (clientID c1) (u_Topic req) ps of
            (Some err, ps1) \<Rightarrow>
              (let (r, ps2) =
                 sendMessage c1
                   (OutError \<lparr>e_Type = ''error'', e_RequestID = u_RequestID req,
                              e_Error = \<lparr>Code = ''UNSUBSCRIBE_FAILED'',
                                         ErrMessage = error_text err\<rparr>,
                              e_Timestamp = now\<rparr>) ps1
               in (r, c1, ps2))
          | (None, ps1) \<Rightarrow>
              (let (r, ps2) =
                 sendMessage c1
                   (OutAck \<lparr>a_Type = ''ack'', a_RequestID = u_RequestID req,
                            a_Topic = u_Topic req, a_Status = ''ok'',
                            a_Timestamp = now\<rparr>) ps1
               in (r, c1, ps2)))))"

text \<open>
  \<open>valid_uuid\<close> stands for \<^verbatim>\<open>uuid.Parse\<close> of the external package: whether the text parses
  as a UUID.
\<close>

definition handlePublish ::
  "(string \<Rightarrow> bool) \<Rightarrow> Client \<Rightarrow> PublishRequest \<Rightarrow> Time \<Rightarrow> World \<Rightarrow>
   panic + (ErrorData option \<times> Client \<times> World)" where
  "handlePublish valid_uuid c req now ps =
     (if p_RequestID req = [] then
        Inr (Some \<lparr>Code = ''BAD_REQUEST'', ErrMessage = ''request_id is required''\<rparr>, c, ps)
      else if clientID c = [] \<and> p_ClientID req = [] then
        Inr (Some \<lparr>Code = ''BAD_REQUEST'',
                   ErrMessage = ''client_id is required for first message on this connection''\<rparr>,
             c, ps)
      else if clientID c \<noteq> [] \<and> p_ClientID req \<noteq> [] \<and> clientID c \<noteq> p_ClientID req then
        Inr (Some \<lparr>Code = ''BAD_REQUEST'',
                   ErrMessage = ''client_id mismatch with existing connection''\<rparr>, c, ps)
      else
        (let c1 = (if clientID c = [] then c\<lparr>clientID := p_ClientID req\<rparr> else c) in
         if ID (p_Message req) = [] \<or> \<not> valid_uuid (ID (p_Message req)) then
           (let (r, ps1) =
              sendMessage c1
                (OutError \<lparr>e_Type = ''error'', e_RequestID = p_RequestID req,
                           e_Error = \<lparr>Code = ''BAD_REQUEST'',
                                      ErrMessage = ''message.id must be a valid UUID''\<rparr>,
                           e_Timestamp = now\<rparr>) ps
            in Inr (r, c1, ps1))
         else
           (case Publish (p_Topic req) (p_Message req) (clientID c1) now ps of
              Inl p \<Rightarrow> Inl p
            | Inr (Some err, ps1) \<Rightarrow>
                (let (r, ps2) =
                   sendMessage c1
                     (OutError \<lparr>e_Type = ''error'', e_RequestID = p_RequestID req,
                                e_Error = \<lparr>Code = ''PUBLISH_FAILED'',
                                           ErrMessage = error_text err\<rparr>,
                                e_Timestamp = now\<rparr>) ps1
                 in Inr (r, c1, ps2))
            | Inr (None, ps1) \<Rightarrow>
                (let (r, ps2) =
                   sendMessage c1
                     (OutAck \<lparr>a_Type = ''ack'', a_RequestID = p_RequestID req,
                              a_Topic = p_Topic req, a_Status = ''ok'',
                              a_Timestamp = now\<rparr>) ps1
                 in Inr (r, c1, ps2)))))"

definition handlePing ::
  "Client \<Rightarrow> PingRequest \<Rightarrow> Time \<Rightarrow> World \<Rightarrow> ErrorData option \<times> Client \<times> World" where
  "handlePing c req now ps =
     (if pg_RequestID req = [] then
        (Some \<lparr>Code = ''BAD_REQUEST'', ErrMessage = ''request_id is required''\<rparr>, c, ps)
      else
        (let (r, ps1) =
           sendMessage c
             (OutPong \<lparr>po_Type = ''pong'', po_RequestID = pg_RequestID req,
                       po_Timestamp = now\<rparr>) ps
         in (r, c, ps1)))"

definition handleMessage ::
  "(string \<Rightarrow> bool) \<Rightarrow> Client \<Rightarrow> parsed \<Rightarrow> Time \<Rightarrow> World \<Rightarrow>
   panic + (ErrorData option \<times> Client \<times> World)" where
  "handleMessage valid_uuid c data now ps =
     (case data of
        ParseError txt \<Rightarrow> Inr (Some \<lparr>Code = [], ErrMessage = txt\<rparr>, c, ps)
      | Parsed (SubscribeReq msg) \<Rightarrow> handleSubscribe c msg now ps
      | Parsed (UnsubscribeReq msg) \<Rightarrow> Inr (handleUnsubscribe c msg now ps)
      | Parsed (PublishReq msg) \<Rightarrow> handlePublish valid_uuid c msg now ps
      | Parsed (PingReq msg) \<Rightarrow> Inr (handlePing c msg now ps))"

text \<open>
  The body of the loop of \<^verbatim>\<open>processPump\<close> for one received frame: an error returned by
  the handler is answered with a fresh \<^verbatim>\<open>ErrorResponse\<close> that keeps only the text of it.
\<close>

definition processPump ::
  "(string \<Rightarrow> bool) \<Rightarrow> Client \<Rightarrow> parsed \<Rightarrow> Time \<Rightarrow> World \<Rightarrow> panic + (Client \<times> World)" where
  "processPump valid_uuid c data now ps =
     (case handleMessage valid_uuid c data now ps of
        Inl p \<Rightarrow> Inl p
      | Inr (None, c1, ps1) \<Rightarrow> Inr (c1, ps1)
      | Inr (Some err, c1, ps1) \<Rightarrow>
          Inr (c1,
               snd (sendMessage c1
                      (OutError \<lparr>e_Type = ''error'', e_RequestID = [],
                                 e_Error = \<lparr>Code = ''PROCESSING_ERROR'',
                                            ErrMessage = ErrMessage err\<rparr>,
                                 e_Timestamp = now\<rparr>) ps1)))"

text \<open>
  The invalid requests in the words of the specification: the \<^verbatim>\<open>request_id\<close> is missing,
  the \<^verbatim>\<open>client_id\<close> is missing where it is required (in subscribe and unsubscribe, and in
  a publish on a session that has no identifier yet), or the \<^verbatim>\<open>message.id\<close> of a publish is
  not a UUID.
\<close>

fun invalid_request :: "(string \<Rightarrow> bool) \<Rightarrow> Client \<Rightarrow> Incoming \<Rightarrow> bool" where
  "invalid_request valid_uuid c (SubscribeReq req) \<longleftrightarrow>
     s_RequestID req = [] \<or> s_ClientID req = []"
| "invalid_request valid_uuid c (UnsubscribeReq req) \<longleftrightarrow>
     u_RequestID req = [] \<or> u_ClientID req = []"
| "invalid_request valid_uuid c (PublishReq req) \<longleftrightarrow>
     p_RequestID req = [] \<or> (clientID c = [] \<and> p_ClientID req = []) \<or>
     ID (p_Message req) = [] \<or> \<not> valid_uuid (ID (p_Message req))"
| "invalid_request valid_uuid c (PingReq req) \<longleftrightarrow> pg_RequestID req = []"

section \<open>Sequences of core operations\<close>

text \<open>
  Runs in which the operations are executed one at a time, each call returning before the
  next one starts. A step is a call of one of the six operations of the core with its
  arguments and clock reading, or a connection's writer taking the oldest event out of its
  channel. Calls that overlap are not runs in this sense; two of them are written out in
  the last section of the definitions.
\<close>

datatype op =
    OpCreateTopic string Time
  | OpDeleteTopic string Time "string \<Rightarrow> string"
  | OpSubscribe string string int nat Time
  | OpUnsubscribe string string
  | OpPublish string MessageData string Time
  | OpDisconnect string
  | OpReceive nat

definition receive :: "nat \<Rightarrow> World \<Rightarrow> World" where
  "receive r ps =
     (case map_of (chans ps) r of
        None \<Rightarrow> ps
      | Some ch \<Rightarrow> ps\<lparr>chans := AList.update r (ch\<lparr>queue := tl (queue ch)\<rparr>) (chans ps)\<rparr>)"

text \<open>
  The log of a run: a topic was created, or a \<^verbatim>\<open>Publish\<close> to a topic returned no error for
  the event built from its arguments.
\<close>

datatype entry = Created string | Published string EventResponse

fun step :: "op \<Rightarrow> World \<Rightarrow> panic + (World \<times> entry list)" where
  "step (OpCreateTopic name now) ps =
     (case CreateTopic name now ps of
        Inl p \<Rightarrow> Inl p
      | Inr (None, ps') \<Rightarrow> Inr (ps', [Created name])
      | Inr (Some e, ps') \<Rightarrow> Inr (ps', []))"
| "step (OpDeleteTopic name now newid) ps =
     (case DeleteTopic name now newid ps of
        Inl p \<Rightarrow> Inl p
      | Inr (r, ps') \<Rightarrow> Inr (ps', []))"
| "step (OpSubscribe client topicName lastN writeChan now) ps =
     (case Subscribe client topicName lastN writeChan now ps of
        Inl p \<Rightarrow> Inl p
      | Inr (r, ps') \<Rightarrow> Inr (ps', []))"
| "step (OpUnsubscribe client topicName) ps = Inr (snd (Unsubscribe client topicName ps), [])"
| "step (OpPublish topicName message sender now) ps =
     (case Publish topicName message sender now ps of
        Inl p \<Rightarrow> Inl p
      | Inr (None, ps') \<Rightarrow>
          Inr (ps', [Published topicName
                       \<lparr>Type = ''event'', Topic = topicName, Message = message,
                        Timestamp = now\<rparr>])
      | Inr (Some e, ps') \<Rightarrow> Inr (ps', []))"
| "step (OpDisconnect client) ps = Inr (DisconnectClient client ps, [])"
| "step (OpReceive r) ps = Inr (receive r ps, [])"

fun run :: "op list \<Rightarrow> World \<times> entry list \<Rightarrow> panic + (World \<times> entry list)" where
  "run [] s = Inr s"
| "run (x # xs) (ps, lg) =
     (case step x ps of
        Inl p \<Rightarrow> Inl p
      | Inr (ps', new) \<Rightarrow> run xs (ps', lg @ new))"

text \<open>All the events published to a topic, in the order of the log.\<close>

fun published :: "string \<Rightarrow> entry list \<Rightarrow> EventResponse list" where
  "published t [] = []"
| "published t (Created t' # lg) = published t lg"
| "published t (Published t' e # lg) =
     (if t' = t then e # published t lg else published t lg)"

text \<open>The events published to a topic since it was last created.\<close>

fun observe :: "string \<Rightarrow> EventResponse list \<Rightarrow> entry \<Rightarrow> EventResponse list" where
  "observe t acc (Created t') = (if t' = t then [] else acc)"
| "observe t acc (Published t' e) = (if t' = t then acc @ [e] else acc)"

definition since_created :: "string \<Rightarrow> entry list \<Rightarrow> EventResponse list" where
  "since_created t lg = foldl (observe t) [] lg"

section \<open>Invariants of the core\<close>

text \<open>Topic \<open>t\<close> is in \<^verbatim>\<open>client_topics[c]\<close>.\<close>

definition mem :: "(string \<times> (string \<times> bool) list) list \<Rightarrow> string \<Rightarrow> string \<Rightarrow> bool" where
  "mem cts c t = (case map_of cts c of None \<Rightarrow> False | Some m \<Rightarrow> map_of m t = Some True)"

text \<open>Topic \<open>t\<close> exists and \<open>c\<close> is a key of its subscriber map.\<close>

definition subscribed :: "World \<Rightarrow> string \<Rightarrow> string \<Rightarrow> bool" where
  "subscribed ps c t =
     (case map_of (topics ps) t of
        None \<Rightarrow> False
      | Some topic \<Rightarrow> c \<in> fst ` set (Subscribers topic))"


text \<open>
  The same, no client has a topic that does not exist, and the topic sets only hold the
  value \<^verbatim>\<open>true\<close>.
\<close>

definition all_true :: "(string \<times> (string \<times> bool) list) list \<Rightarrow> bool" where
  "all_true cts \<longleftrightarrow> (\<forall>c m t. map_of cts c = Some m \<longrightarrow> map_of m t \<noteq> Some False)"

definition edges :: "World \<Rightarrow> bool" where
  "edges ps \<longleftrightarrow>
     (\<forall>c t. mem (clientTopics ps) c t \<longleftrightarrow> subscribed ps c t) \<and> all_true (clientTopics ps)"

text \<open>
  Well-formed states: every ring is well formed, and every subscriber entry sits under
  its own client identifier and points to a registered client.
\<close>

definition well_formed :: "World \<Rightarrow> bool" where
  "well_formed ps \<longleftrightarrow>
     (\<forall>t topic. map_of (topics ps) t = Some topic \<longrightarrow>
        rb_inv (MessageHistory topic) \<and>
        (\<forall>(k, s) \<in> set (Subscribers topic).
           sub_ClientID s = k \<and> sub_Client s = k \<and> map_of (clients ps) k \<noteq> None)) \<and>
     (\<forall>c client. map_of (clients ps) c = Some client \<longrightarrow> rb_inv (Buffer client))"

text \<open>
  The history ring of every existing topic has the capacity \<^verbatim>\<open>TopicHistoryBufferSize\<close>
  and holds the last events published to the topic since its creation.
\<close>

definition hist_inv :: "World \<Rightarrow> entry list \<Rightarrow> bool" where
  "hist_inv ps lg \<longleftrightarrow>
     (\<forall>t topic. map_of (topics ps) t = Some topic \<longrightarrow>
        capacity (MessageHistory topic) = TopicHistoryBufferSize \<and>
        contents (MessageHistory topic) =
          last_k (nat TopicHistoryBufferSize) (since_created t lg))"

text \<open>The invariant of the core and of the log of its run.\<close>

definition core_inv :: "World \<Rightarrow> entry list \<Rightarrow> bool" where
  "core_inv ps lg \<longleftrightarrow> well_formed ps \<and> edges ps \<and> hist_inv ps lg"

section \<open>Concrete states and inputs\<close>

definition ev :: "string \<Rightarrow> EventResponse" where
  "ev i = \<lparr>Type = ''event'', Topic = ''T'',
           Message = \<lparr>ID = i, Payload = PJson ''{}''\<rparr>, Timestamp = 0\<rparr>"

text \<open>A ring of capacity 3 after the events a, b, c, d were pushed.\<close>

definition rb_abcd :: RingBuffer where
  "rb_abcd = \<lparr>buffer = [ev ''d'', ev ''b'', ev ''c''], head = 1, tail = 1, size_rb = 3,
              capacity = 3, full = True\<rparr>"

text \<open>The ring that \<^verbatim>\<open>NewRingBuffer(0)\<close> returns.\<close>

definition rb_zero :: RingBuffer where
  "rb_zero = \<lparr>buffer = [], head = 0, tail = 0, size_rb = 0, capacity = 0, full = False\<rparr>"

text \<open>A ring of capacity 1 that holds the event a.\<close>

definition rb_one :: RingBuffer where
  "rb_one = \<lparr>buffer = [ev ''a''], head = 0, tail = 0, size_rb = 1, capacity = 1,
             full = True\<rparr>"

text \<open>
  The run of the repository's test \<^verbatim>\<open>TestNoEchoBack\<close>: one channel of capacity 10, the
  topic is created, client1 subscribes to it with that channel and then publishes to it.
\<close>

definition echo_chans :: chan_store where
  "echo_chans = [(1, \<lparr>queue = [], chan_cap = 10\<rparr>)]"

definition echo_message :: MessageData where
  "echo_message = \<lparr>ID = ''echo-test-1'', Payload = PJson ''{text: Echo test}''\<rparr>"

definition echo_ops :: "op list" where
  "echo_ops =
     [OpCreateTopic ''echo-topic'' 0,
      OpSubscribe ''client1'' ''echo-topic'' 0 1 1,
      OpPublish ''echo-topic'' echo_message ''client1'' 2]"

definition echo_event :: EventResponse where
  "echo_event = \<lparr>Type = ''event'', Topic = ''echo-topic'', Message = echo_message,
                 Timestamp = 2\<rparr>"

text \<open>
  A session that has not seen a request yet, with an empty outbound channel of capacity
  256, and a subscribe request whose \<^verbatim>\<open>request_id\<close> is missing.
\<close>

definition fresh_session :: Client where
  "fresh_session = \<lparr>send = 1, clientID = []\<rparr>"

definition session_world :: World where
  "session_world = init [(1, \<lparr>queue = [], chan_cap = 256\<rparr>)]"

definition subscribe_no_request_id :: parsed where
  "subscribe_no_request_id =
     Parsed (SubscribeReq \<lparr>s_Type = ''subscribe'', s_Topic = ''orders'', s_ClientID = ''c1'',
                           s_LastN = 0, s_RequestID = []\<rparr>)"

text \<open>
  A state in which client c1 has topic T in its topic set although no topic T exists, and
  one in which a topic T of history capacity 2 has the subscriber c1.
\<close>

definition stale_world :: World where
  "stale_world = \<lparr>topics = [], clients = [], clientTopics = [(''c1'', [(''T'', True)])],
                  chans = []\<rparr>"

definition small_world :: World where
  "small_world =
     \<lparr>topics =
        [(''T'', \<lparr>Name = ''T'',
                  Subscribers = [(''c1'', \<lparr>sub_ClientID = ''c1'', sub_Topic = ''T'',
                                            sub_Client = ''c1''\<rparr>)],
                  MessageCount = 1, CreatedAt = 0,
                  MessageHistory = \<lparr>buffer = [ev ''a'', zeroEvent], head = 1, tail = 0,
                                     size_rb = 1, capacity = 2, full = False\<rparr>\<rparr>)],
      clients =
        [(''c1'', \<lparr>ClientID = ''c1'',
                   Buffer = \<lparr>buffer = [ev ''a'', zeroEvent], head = 1, tail = 0,
                             size_rb = 1, capacity = 2, full = False\<rparr>,
                   WriteChan = 1, LastActive = 0, Connected = True\<rparr>)],
      clientTopics = [(''c1'', [(''T'', True)])],
      chans = [(1, \<lparr>queue = [], chan_cap = 4\<rparr>)]\<rparr>"




section \<open>Properties of the ring buffer\<close>

lemma rem_nonneg: "0 \<le> a \<Longrightarrow> 0 < b \<Longrightarrow> rem a b = Inr (a mod b)"
  by (simp add: rem_def smod_int_alt_def sgn_if)

lemma mod_shift_inj:
  fixes t c :: int
  assumes "0 < c" "0 \<le> i" "i < c" "0 \<le> j" "j < c" "(t + i) mod c = (t + j) mod c"
  shows "i = j"
proof -
  have "c dvd (t + i) - (t + j)" using assms(6) by (simp only: mod_eq_dvd_iff)
  then have "c dvd i - j" by simp
  moreover have "\<bar>i - j\<bar> < c" using assms by linarith
  ultimately have "i - j = 0" using zdvd_not_zless[of "\<bar>i - j\<bar>" c] by (cases "i - j = 0") auto
  then show ?thesis by simp
qed

lemma length_contents: "0 \<le> size_rb rb \<Longrightarrow> int (length (contents rb)) = size_rb rb"
  by (simp add: contents_def)

lemma nth_contents:
  "i < nat (size_rb rb) \<Longrightarrow>
   contents rb ! i = buffer rb ! nat ((tail rb + int i) mod capacity rb)"
  by (simp add: contents_def)

lemma mapE_Inr: "(\<And>x. x \<in> set xs \<Longrightarrow> f x = Inr (g x)) \<Longrightarrow> mapE f xs = Inr (map g xs)"
  by (induction xs) simp_all

lemma copy_from_inv:
  assumes "rb_inv rb" "0 \<le> start" "0 \<le> count"
  shows "copy_from rb start count =
         Inr (map (\<lambda>i. buffer rb ! nat ((start + int i) mod capacity rb)) [0..<nat count])"
proof -
  have c: "0 < capacity rb" and l: "int (length (buffer rb)) = capacity rb"
    using assms(1) by (simp_all add: rb_inv_def)
  have "mapE (\<lambda>i. case rem (start + int i) (capacity rb) of
                     Inl p \<Rightarrow> Inl p
                   | Inr j \<Rightarrow> index_get (buffer rb) j) [0..<nat count]
        = Inr (map (\<lambda>i. buffer rb ! nat ((start + int i) mod capacity rb)) [0..<nat count])"
  proof (rule mapE_Inr)
    fix i :: nat
    have "rem (start + int i) (capacity rb) = Inr ((start + int i) mod capacity rb)"
      using assms(2) c by (simp add: rem_nonneg)
    moreover have "0 \<le> (start + int i) mod capacity rb" "(start + int i) mod capacity rb < int (length (buffer rb))"
      using c l by simp_all
    ultimately show "(case rem (start + int i) (capacity rb) of
                     Inl p \<Rightarrow> Inl p
                   | Inr j \<Rightarrow> index_get (buffer rb) j) = Inr (buffer rb ! nat ((start + int i) mod capacity rb))"
      by (simp add: index_get_def)
  qed
  then show ?thesis using assms(3) by (simp add: copy_from_def)
qed

lemma NewRingBuffer_inv:
  "0 < c \<Longrightarrow> \<exists>rb. NewRingBuffer c = Inr rb \<and> rb_inv rb \<and> contents rb = [] \<and> capacity rb = c"
  by (simp add: NewRingBuffer_def rb_inv_def contents_def)

lemma NewRingBuffer_states:
  "NewRingBuffer c = Inr rb \<Longrightarrow> rb_inv rb \<or> (rb = rb_zero \<and> c = 0)"
  by (cases "c = 0") (auto simp: NewRingBuffer_def rb_inv_def rb_zero_def split: if_splits)

lemma last_k_all: "length xs \<le> k \<Longrightarrow> last_k k xs = xs"
  by (simp add: last_k_def)

lemma last_k_snoc: "0 < k \<Longrightarrow> last_k k (last_k k xs @ [e]) = last_k k (xs @ [e])"
  by (cases "length xs \<le> k") (simp_all add: last_k_def Suc_diff_le)

lemma suffix_last_k: "suffix (last_k k xs) xs"
  by (simp add: last_k_def suffix_drop)

lemma Push_not_full:
  assumes inv: "rb_inv rb" and nf: "\<not> full rb"
  shows "\<exists>rb'. Push e rb = Inr rb' \<and> rb_inv rb' \<and> capacity rb' = capacity rb \<and>
           tail rb' = tail rb \<and> size_rb rb' = size_rb rb + 1 \<and>
           contents rb' = contents rb @ [e]"
proof -
  let ?c = "capacity rb" and ?t = "tail rb" and ?s = "size_rb rb" and ?h = "head rb"
  have c: "0 < ?c" and l: "int (length (buffer rb)) = ?c"
    and h: "0 \<le> ?h" "?h < ?c" and t: "0 \<le> ?t" "?t < ?c"
    and s: "0 \<le> ?s" "?s < ?c" and hd: "?h = (?t + ?s) mod ?c"
    using inv nf by (auto simp: rb_inv_def)
  define rb' where "rb' = rb\<lparr>buffer := (buffer rb)[nat ?h := e], head := (?h + 1) mod ?c,
     size_rb := ?s + 1, full := (?s + 1 = ?c)\<rparr>"
  have P: "Push e rb = Inr rb'"
    using c l h nf by (simp add: Push_def index_set_def rem_nonneg rb'_def Let_def)
  have hd': "(?h + 1) mod ?c = (?t + (?s + 1)) mod ?c"
    by (simp add: hd mod_add_left_eq add.assoc)
  have I: "rb_inv rb'"
    using c l h t s hd' by (simp add: rb_inv_def rb'_def)
  have C: "contents rb' = contents rb @ [e]"
  proof (rule nth_equalityI)
    show "length (contents rb') = length (contents rb @ [e])"
      using s by (simp add: contents_def rb'_def nat_add_distrib)
  next
    fix i assume "i < length (contents rb')"
    then have i: "i < nat (?s + 1)" by (simp add: contents_def rb'_def)
    have l': "contents rb' ! i = (buffer rb)[nat ?h := e] ! nat ((?t + int i) mod ?c)"
      using i by (simp add: contents_def rb'_def)
    show "contents rb' ! i = (contents rb @ [e]) ! i"
    proof (cases "i < nat ?s")
      case True
      have "(?t + int i) mod ?c \<noteq> ?h"
      proof
        assume "(?t + int i) mod ?c = ?h"
        then have "(?t + int i) mod ?c = (?t + ?s) mod ?c" by (simp add: hd)
        then have "int i = ?s" using mod_shift_inj[of ?c "int i" ?s ?t] c s True by simp
        then show False using True by simp
      qed
      moreover have "0 \<le> (?t + int i) mod ?c" using c by simp
      ultimately have "nat ?h \<noteq> nat ((?t + int i) mod ?c)" using h by (simp add: eq_nat_nat_iff)
      then show ?thesis using True s l' by (simp add: nth_append contents_def)
    next
      case False
      then have ii: "int i = ?s" using i s by simp
      then have "nat ((?t + int i) mod ?c) = nat ?h" by (simp add: hd)
      moreover have "nat ?h < length (buffer rb)" using h l by simp
      moreover have "i = length (contents rb)" using ii s by (simp add: contents_def)
      ultimately show ?thesis using l' by (simp add: nth_append)
    qed
  qed
  show ?thesis using P I C by (auto simp: rb'_def)
qed

lemma Push_full:
  assumes inv: "rb_inv rb" and f: "full rb"
  shows "\<exists>rb'. Push e rb = Inr rb' \<and> rb_inv rb' \<and> capacity rb' = capacity rb \<and>
           tail rb' = (tail rb + 1) mod capacity rb \<and> size_rb rb' = size_rb rb \<and>
           contents rb' = tl (contents rb) @ [e]"
proof -
  let ?c = "capacity rb" and ?t = "tail rb" and ?s = "size_rb rb" and ?h = "head rb"
  have c: "0 < ?c" and l: "int (length (buffer rb)) = ?c"
    and h: "0 \<le> ?h" "?h < ?c" and t: "0 \<le> ?t" "?t < ?c"
    and s: "?s = ?c" and hd0: "?h = (?t + ?s) mod ?c"
    using inv f by (auto simp: rb_inv_def)
  have hd: "?h = ?t" using hd0 s t by simp
  define rb' where "rb' = rb\<lparr>buffer := (buffer rb)[nat ?h := e], head := (?h + 1) mod ?c,
     tail := (?t + 1) mod ?c\<rparr>"
  have P: "Push e rb = Inr rb'"
    using c l h t f by (simp add: Push_def index_set_def rem_nonneg rb'_def Let_def)
  have I: "rb_inv rb'"
    using c l h t s f hd by (simp add: rb_inv_def rb'_def)
  have C: "contents rb' = tl (contents rb) @ [e]"
  proof (rule nth_equalityI)
    show "length (contents rb') = length (tl (contents rb) @ [e])"
      using s c by (simp add: contents_def rb'_def)
  next
    fix i assume "i < length (contents rb')"
    then have i: "i < nat ?c" using s by (simp add: contents_def rb'_def)
    have idx: "((?t + 1) mod ?c + int i) mod ?c = (?t + (int i + 1)) mod ?c"
      by (simp add: mod_simps ac_simps)
    have l': "contents rb' ! i = (buffer rb)[nat ?t := e] ! nat ((?t + (int i + 1)) mod ?c)"
      using i s hd by (simp add: contents_def rb'_def idx)
    show "contents rb' ! i = (tl (contents rb) @ [e]) ! i"
    proof (cases "Suc i < nat ?c")
      case True
      have "(?t + (int i + 1)) mod ?c \<noteq> ?t"
      proof
        assume "(?t + (int i + 1)) mod ?c = ?t"
        then have "(?t + (int i + 1)) mod ?c = (?t + 0) mod ?c" using t by simp
        moreover have "int i + 1 < ?c" using True by linarith
        ultimately have "int i + 1 = 0" using mod_shift_inj[of ?c "int i + 1" 0 ?t] c by simp
        then show False by simp
      qed
      moreover have "0 \<le> (?t + (int i + 1)) mod ?c" using c by simp
      ultimately have "nat ?t \<noteq> nat ((?t + (int i + 1)) mod ?c)" using t by (simp add: eq_nat_nat_iff)
      moreover have "tl (contents rb) ! i = contents rb ! Suc i"
        using True s by (simp add: nth_tl contents_def)
      moreover have "contents rb ! Suc i = buffer rb ! nat ((?t + (int i + 1)) mod ?c)"
        using True s by (simp add: contents_def add.commute)
      moreover have "i < length (tl (contents rb))" using True s by (simp add: contents_def)
      ultimately show ?thesis using l' by (simp add: nth_append)
    next
      case False
      then have ii: "int i + 1 = ?c" using i by simp
      then have "nat ((?t + (int i + 1)) mod ?c) = nat ?t" using t by simp
      moreover have "nat ?t < length (buffer rb)" using t l by simp
      moreover have "i = length (tl (contents rb))" using ii s by (simp add: contents_def)
      ultimately show ?thesis using l' by (simp add: nth_append)
    qed
  qed
  show ?thesis using P I C s by (auto simp: rb'_def)
qed

lemma Push_contents:
  assumes "rb_inv rb"
  shows "\<exists>rb'. Push e rb = Inr rb' \<and> rb_inv rb' \<and> capacity rb' = capacity rb \<and>
           contents rb' = last_k (nat (capacity rb)) (contents rb @ [e])"
proof (cases "full rb")
  case True
  then have s: "size_rb rb = capacity rb" "0 < capacity rb" using assms by (simp_all add: rb_inv_def)
  then have l: "length (contents rb) = nat (capacity rb)" by (simp add: contents_def)
  then have ne: "contents rb \<noteq> []" using s by auto
  have "last_k (nat (capacity rb)) (contents rb @ [e]) = tl (contents rb) @ [e]"
    using l ne by (cases "contents rb") (simp_all add: last_k_def)
  then show ?thesis using Push_full[OF assms True, of e] by auto
next
  case False
  then have s: "size_rb rb < capacity rb" "0 \<le> size_rb rb" using assms by (auto simp: rb_inv_def)
  then have "length (contents rb @ [e]) \<le> nat (capacity rb)" by (simp add: contents_def)
  then have "last_k (nat (capacity rb)) (contents rb @ [e]) = contents rb @ [e]"
    by (rule last_k_all)
  then show ?thesis using Push_not_full[OF assms False, of e] by auto
qed

lemma Pop_inv:
  assumes inv: "rb_inv rb"
  shows "\<exists>r rb'. Pop rb = Inr (r, rb') \<and> rb_inv rb' \<and> capacity rb' = capacity rb \<and>
           (contents rb = [] \<longrightarrow> r = None \<and> rb' = rb) \<and>
           (contents rb \<noteq> [] \<longrightarrow>
              r = Some (hd (contents rb)) \<and> contents rb' = tl (contents rb))"
proof (cases "size_rb rb = 0")
  case True
  then show ?thesis using inv by (simp add: Pop_def contents_def)
next
  case False
  let ?c = "capacity rb" and ?t = "tail rb" and ?s = "size_rb rb" and ?h = "head rb"
  have c: "0 < ?c" and l: "int (length (buffer rb)) = ?c"
    and t: "0 \<le> ?t" "?t < ?c" and s: "0 < ?s" "?s \<le> ?c"
    and hd: "?h = (?t + ?s) mod ?c"
    using inv False by (auto simp: rb_inv_def)
  define rb' where
    "rb' = rb\<lparr>tail := (?t + 1) mod ?c, size_rb := ?s - 1, full := False\<rparr>"
  have P: "Pop rb = Inr (Some (buffer rb ! nat ?t), rb')"
    using False c l t by (simp add: Pop_def index_get_def rem_nonneg rb'_def)
  have hd': "?h = ((?t + 1) mod ?c + (?s - 1)) mod ?c"
    by (simp add: hd mod_simps)
  have I: "rb_inv rb'"
    using c l t s hd' inv by (simp add: rb_inv_def rb'_def)
  have ne: "contents rb \<noteq> []" using s by (simp add: contents_def)
  have H: "hd (contents rb) = buffer rb ! nat ?t"
    using s t by (simp add: contents_def hd_map upt_conv_Cons)
  have C: "contents rb' = tl (contents rb)"
  proof (rule nth_equalityI)
    show "length (contents rb') = length (tl (contents rb))"
      using s by (simp add: contents_def rb'_def nat_diff_distrib)
  next
    fix i assume "i < length (contents rb')"
    then have i: "i < nat (?s - 1)" by (simp add: contents_def rb'_def)
    then have i': "Suc i < nat ?s" by linarith
    have idx: "((?t + 1) mod ?c + int i) mod ?c = (?t + (int i + 1)) mod ?c"
      by (simp add: mod_simps ac_simps)
    have "contents rb' ! i = buffer rb ! nat ((?t + (int i + 1)) mod ?c)"
      using i by (simp add: contents_def rb'_def idx)
    moreover have "tl (contents rb) ! i = contents rb ! Suc i"
      using i' by (simp add: nth_tl contents_def)
    moreover have "contents rb ! Suc i = buffer rb ! nat ((?t + (int i + 1)) mod ?c)"
      using i' by (simp add: contents_def add.commute)
    ultimately show "contents rb' ! i = tl (contents rb) ! i" by simp
  qed
  show ?thesis using P I C H ne by (simp add: rb'_def)
qed

lemma PopAll_inv:
  assumes inv: "rb_inv rb"
  shows "\<exists>rb'. PopAll rb = Inr (contents rb, rb') \<and> rb_inv rb' \<and> contents rb' = [] \<and>
           capacity rb' = capacity rb"
proof (cases "size_rb rb = 0")
  case True
  then show ?thesis using inv by (simp add: PopAll_def contents_def)
next
  case False
  have t: "0 \<le> tail rb" and s: "0 \<le> size_rb rb" using inv by (simp_all add: rb_inv_def)
  have "copy_from rb (tail rb) (size_rb rb) = Inr (contents rb)"
    using copy_from_inv[OF inv t s] by (simp add: contents_def)
  then show ?thesis using False inv by (simp add: PopAll_def rb_inv_def contents_def)
qed

lemma Clear_inv: "rb_inv rb \<Longrightarrow> rb_inv (Clear rb) \<and> contents (Clear rb) = []"
  by (simp add: rb_inv_def Clear_def contents_def)

lemma GetLastN_inv:
  assumes inv: "rb_inv rb"
  shows "GetLastN n rb = Inr (last_k (nat (min n (size_rb rb))) (contents rb))"
proof (cases "size_rb rb = 0 \<or> n \<le> 0")
  case True
  then show ?thesis by (auto simp: GetLastN_def last_k_def contents_def)
next
  case False
  let ?c = "capacity rb" and ?t = "tail rb" and ?s = "size_rb rb" and ?h = "head rb"
  have c: "0 < ?c" and h: "0 \<le> ?h" "?h < ?c" and s: "0 < ?s" "?s \<le> ?c"
    and hd: "?h = (?t + ?s) mod ?c"
    using inv False by (auto simp: rb_inv_def)
  define count where "count = min n ?s"
  define start where "start = (if ?h - count < 0 then ?h - count + ?c else ?h - count)"
  have cnt: "0 < count" "count \<le> ?s" using False s by (auto simp: count_def)
  have st: "0 \<le> start" using h cnt s by (auto simp: start_def)
  have G: "GetLastN n rb = copy_from rb start count"
    using False by (auto simp: GetLastN_def Let_def count_def start_def min_def)
  have stm: "\<And>i. (start + i) mod ?c = (?t + (?s - count + i)) mod ?c"
  proof -
    fix i :: int
    have "(?h - count + i + ?c) mod ?c = (?h - count + i) mod ?c"
      by (rule mod_add_self2)
    then have "(start + i) mod ?c = (?h - count + i) mod ?c"
      by (simp add: start_def algebra_simps)
    also have "\<dots> = ((?t + ?s) mod ?c + (i - count)) mod ?c"
      by (simp add: hd algebra_simps)
    also have "\<dots> = (?t + ?s + (i - count)) mod ?c"
      by (simp only: mod_add_left_eq)
    finally show "(start + i) mod ?c = (?t + (?s - count + i)) mod ?c"
      by (simp add: algebra_simps)
  qed
  have "map (\<lambda>i. buffer rb ! nat ((start + int i) mod ?c)) [0..<nat count]
        = last_k (nat count) (contents rb)"
  proof (rule nth_equalityI)
    show "length (map (\<lambda>i. buffer rb ! nat ((start + int i) mod ?c)) [0..<nat count])
          = length (last_k (nat count) (contents rb))"
      using cnt s by (simp add: last_k_def contents_def)
  next
    fix i assume "i < length (map (\<lambda>i. buffer rb ! nat ((start + int i) mod ?c)) [0..<nat count])"
    then have i: "i < nat count" by simp
    have j: "nat ?s - nat count + i < nat ?s" using i cnt by linarith
    have e: "int (nat ?s - nat count + i) = ?s - count + int i" using cnt i by linarith
    have "last_k (nat count) (contents rb) ! i = contents rb ! (nat ?s - nat count + i)"
      using i cnt by (simp add: last_k_def contents_def)
    also have "\<dots> = buffer rb ! nat ((?t + int (nat ?s - nat count + i)) mod ?c)"
      using j by (simp add: contents_def)
    also have "\<dots> = buffer rb ! nat ((start + int i) mod ?c)"
      by (simp only: e stm)
    finally show "map (\<lambda>i. buffer rb ! nat ((start + int i) mod ?c)) [0..<nat count] ! i
          = last_k (nat count) (contents rb) ! i"
      using i by simp
  qed
  then show ?thesis
    using G copy_from_inv[OF inv st] cnt by (simp add: count_def)
qed

lemma contents_rb_abcd: "contents rb_abcd = [ev ''b'', ev ''c'', ev ''d'']"
  by (simp add: contents_def rb_abcd_def upt_rec)

lemma rb_inv_rb_abcd: "rb_inv rb_abcd"
  by (simp add: rb_inv_def rb_abcd_def)

lemma contents_rb_one: "contents rb_one = [ev ''a'']"
  by (simp add: contents_def rb_one_def)

lemma rb_inv_rb_one: "rb_inv rb_one"
  by (simp add: rb_inv_def rb_one_def)

text \<open>
  Claim C7. On every well-formed ring, and on every ring of size 0 (such as the one of
  capacity 0), \<^verbatim>\<open>GetLastN(n)\<close> returns, without a panic, the last min(n, size) events of the
  ring's contents in their order (oldest first); it returns nothing when n \<le> 0 or the ring
  is empty, and the whole contents when n exceeds the size. The function only reads the
  ring: it has no ring among its results.
\<close>

theorem GetLastN_spec:
  assumes "rb_inv rb \<or> size_rb rb = 0"
  shows "GetLastN n rb = Inr (last_k (nat (min n (size_rb rb))) (contents rb)) \<and>
         (n \<le> 0 \<or> size_rb rb = 0 \<longrightarrow> GetLastN n rb = Inr []) \<and>
         (n > size_rb rb \<longrightarrow> GetLastN n rb = Inr (contents rb))"
proof (cases "size_rb rb = 0")
  case True
  then show ?thesis by (simp add: GetLastN_def contents_def last_k_def)
next
  case False
  then have i: "rb_inv rb" using assms by simp
  then have s: "0 \<le> size_rb rb" by (simp add: rb_inv_def)
  have "n > size_rb rb \<Longrightarrow> last_k (nat (min n (size_rb rb))) (contents rb) = contents rb"
    using s by (simp add: last_k_def contents_def)
  then show ?thesis
    using GetLastN_inv[OF i, of n] by (auto simp: GetLastN_def)
qed

theorem GetLastN_spec_witness:
  "rb_inv rb_abcd \<and> GetLastN 2 rb_abcd = Inr [ev ''c'', ev ''d''] \<and>
   GetLastN 0 rb_abcd = Inr [] \<and> GetLastN 7 rb_abcd = Inr [ev ''b'', ev ''c'', ev ''d''] \<and>
   size_rb rb_zero = 0 \<and> GetLastN 3 rb_zero = Inr []"
proof -
  have a: "rb_inv rb_abcd \<or> size_rb rb_abcd = 0" using rb_inv_rb_abcd by simp
  have z: "rb_inv rb_zero \<or> size_rb rb_zero = 0" by (simp add: rb_zero_def)
  show ?thesis
    using GetLastN_spec[OF a, of 2] GetLastN_spec[OF a, of 0] GetLastN_spec[OF a, of 7]
      GetLastN_spec[OF z, of 3]
    by (simp add: rb_inv_rb_abcd contents_rb_abcd last_k_def) (simp add: rb_abcd_def rb_zero_def)
qed

text \<open>
  Claim C8 as stated fails on the ring of capacity 0: \<^verbatim>\<open>NewRingBuffer(0)\<close> returns a ring
  whose slice is empty, and \<^verbatim>\<open>Push\<close> on it panics at \<^verbatim>\<open>rb.buffer[rb.head] = message\<close>.
\<close>

theorem Push_zero_capacity:
  "NewRingBuffer 0 = Inr rb_zero \<and> Push (ev ''a'') rb_zero = Inl IndexOutOfRange"
  by (simp add: NewRingBuffer_def rb_zero_def Push_def index_set_def)

text \<open>
  Claim C8, as amended. On every well-formed ring (capacity at least 1) \<^verbatim>\<open>Push\<close> returns
  without a panic and keeps the ring well formed. Below capacity the event is appended,
  the size grows by one and the tail stays; at capacity the oldest event is dropped, the
  tail advances by one (modulo the capacity) and the size stays at the capacity. For
  capacity 1 the ring then holds exactly the event just pushed, and \<^verbatim>\<open>GetLastN(1)\<close> reads
  it.
\<close>

theorem Push_spec:
  assumes "rb_inv rb"
  shows "\<exists>rb'. Push e rb = Inr rb' \<and> rb_inv rb' \<and> capacity rb' = capacity rb \<and>
           (size_rb rb < capacity rb \<longrightarrow>
              contents rb' = contents rb @ [e] \<and> size_rb rb' = size_rb rb + 1 \<and>
              tail rb' = tail rb) \<and>
           (size_rb rb = capacity rb \<longrightarrow>
              contents rb' = tl (contents rb) @ [e] \<and> size_rb rb' = capacity rb \<and>
              tail rb' = (tail rb + 1) mod capacity rb) \<and>
           (capacity rb = 1 \<longrightarrow>
              size_rb rb' = 1 \<and> contents rb' = [e] \<and> GetLastN 1 rb' = Inr [e])"
proof (cases "full rb")
  case True
  then have s: "size_rb rb = capacity rb" using assms by (simp add: rb_inv_def)
  obtain rb' where r: "Push e rb = Inr rb'" "rb_inv rb'" "capacity rb' = capacity rb"
      "tail rb' = (tail rb + 1) mod capacity rb" "size_rb rb' = size_rb rb"
      "contents rb' = tl (contents rb) @ [e]"
    using Push_full[OF assms True] by blast
  have one: "capacity rb = 1 \<Longrightarrow> contents rb' = [e]"
    using r(6) s by (simp add: contents_def)
  have "capacity rb = 1 \<Longrightarrow> GetLastN 1 rb' = Inr [e]"
    using GetLastN_inv[OF r(2), of 1] one r(5) s by (simp add: last_k_def)
  then show ?thesis using r s one by auto
next
  case False
  then have s: "size_rb rb < capacity rb" "0 \<le> size_rb rb" using assms by (auto simp: rb_inv_def)
  obtain rb' where r: "Push e rb = Inr rb'" "rb_inv rb'" "capacity rb' = capacity rb"
      "tail rb' = tail rb" "size_rb rb' = size_rb rb + 1"
      "contents rb' = contents rb @ [e]"
    using Push_not_full[OF assms False] by blast
  have one: "capacity rb = 1 \<Longrightarrow> contents rb' = [e]"
    using r(6) s by (simp add: contents_def)
  have "capacity rb = 1 \<Longrightarrow> GetLastN 1 rb' = Inr [e]"
    using GetLastN_inv[OF r(2), of 1] one r(5) s by (simp add: last_k_def)
  then show ?thesis using r s one by auto
qed

theorem Push_spec_witness:
  "rb_inv rb_abcd \<and> size_rb rb_abcd = capacity rb_abcd \<and>
   (\<exists>rb'. Push (ev ''e'') rb_abcd = Inr rb' \<and> size_rb rb' = 3 \<and>
          contents rb' = [ev ''c'', ev ''d'', ev ''e'']) \<and>
   rb_inv rb_one \<and> capacity rb_one = 1 \<and>
   (\<exists>rb'. Push (ev ''b'') rb_one = Inr rb' \<and> GetLastN 1 rb' = Inr [ev ''b''])"
proof -
  have a: "size_rb rb_abcd = capacity rb_abcd" "capacity rb_abcd = 3"
    by (simp_all add: rb_abcd_def)
  have b: "capacity rb_one = 1" by (simp add: rb_one_def)
  from Push_spec[OF rb_inv_rb_abcd, of "ev ''e''"] a contents_rb_abcd
  have 1: "\<exists>rb'. Push (ev ''e'') rb_abcd = Inr rb' \<and> size_rb rb' = 3 \<and>
          contents rb' = [ev ''c'', ev ''d'', ev ''e'']"
    by auto
  from Push_spec[OF rb_inv_rb_one, of "ev ''b''"] b
  have 2: "\<exists>rb'. Push (ev ''b'') rb_one = Inr rb' \<and> GetLastN 1 rb' = Inr [ev ''b'']"
    by auto
  show ?thesis using 1 2 a b rb_inv_rb_abcd rb_inv_rb_one by simp
qed

section \<open>Association lists\<close>

lemma set_update_subset: "set (AList.update k v al) \<subseteq> insert (k, v) (set al)"
  by (induction al) auto

lemma set_delete_subset: "set (AList.delete k al) \<subseteq> set al"
  by (auto simp: AList.delete_eq)

lemma keys_delete: "fst ` set (AList.delete k al) = fst ` set al - {k}"
  by (force simp: AList.delete_eq)

lemma delete_Nil_map_of: "AList.delete k al = [] \<Longrightarrow> k' \<noteq> k \<Longrightarrow> map_of al k' = None"
  by (metis map_of_delete map_of.simps(1))

section \<open>The operations of the core on well-formed states\<close>

lemma wfI:
  assumes "\<And>t topic. map_of (topics ps) t = Some topic \<Longrightarrow> rb_inv (MessageHistory topic)"
    and "\<And>t topic k s. map_of (topics ps) t = Some topic \<Longrightarrow> (k, s) \<in> set (Subscribers topic) \<Longrightarrow>
           sub_ClientID s = k \<and> sub_Client s = k \<and> map_of (clients ps) k \<noteq> None"
    and "\<And>c client. map_of (clients ps) c = Some client \<Longrightarrow> rb_inv (Buffer client)"
  shows "well_formed ps"
  unfolding well_formed_def using assms by blast

lemma wf_topic:
  "well_formed ps \<Longrightarrow> map_of (topics ps) t = Some topic \<Longrightarrow>
   rb_inv (MessageHistory topic) \<and>
   (\<forall>(k, s) \<in> set (Subscribers topic).
      sub_ClientID s = k \<and> sub_Client s = k \<and> map_of (clients ps) k \<noteq> None)"
  unfolding well_formed_def by blast

lemma wf_client: "well_formed ps \<Longrightarrow> map_of (clients ps) c = Some client \<Longrightarrow> rb_inv (Buffer client)"
  unfolding well_formed_def by blast

lemma wf_sub:
  "well_formed ps \<Longrightarrow> map_of (topics ps) t = Some topic \<Longrightarrow> (k, s) \<in> set (Subscribers topic) \<Longrightarrow>
   sub_ClientID s = k \<and> sub_Client s = k \<and> map_of (clients ps) k \<noteq> None"
  unfolding well_formed_def by blast

lemma wf_subscribers_registered:
  assumes "well_formed ps" "map_of (topics ps) t = Some topic"
  shows "\<forall>s\<in>set (map snd (Subscribers topic)). map_of (clients ps) (sub_Client s) \<noteq> None"
  using wf_topic[OF assms] by fastforce

lemma wf_subscriber_ids:
  assumes "well_formed ps" "map_of (topics ps) t = Some topic"
  shows "sub_ClientID ` set (map snd (Subscribers topic)) = fst ` set (Subscribers topic)"
proof -
  have "\<forall>(k, s) \<in> set (Subscribers topic). sub_ClientID s = k"
    using wf_topic[OF assms] by auto
  then show ?thesis by force
qed

lemma NewRingBuffer_default:
  "NewRingBuffer DefaultBufferSize =
     Inr \<lparr>buffer = replicate 100 zeroEvent, head = 0, tail = 0, size_rb = 0,
          capacity = 100, full = False\<rparr>"
  by (simp add: NewRingBuffer_def DefaultBufferSize_def)

lemma rb_inv_default:
  "rb_inv \<lparr>buffer = replicate 100 zeroEvent, head = 0, tail = 0, size_rb = 0,
           capacity = 100, full = False\<rparr>"
  by (simp add: rb_inv_def)

lemma NewRingBuffer_history:
  "NewRingBuffer TopicHistoryBufferSize =
     Inr \<lparr>buffer = replicate 1000 zeroEvent, head = 0, tail = 0, size_rb = 0,
          capacity = 1000, full = False\<rparr>"
  by (simp add: NewRingBuffer_def TopicHistoryBufferSize_def)

lemma history_fresh:
  "rb_inv \<lparr>buffer = replicate 1000 zeroEvent, head = 0, tail = 0, size_rb = 0,
           capacity = 1000, full = False\<rparr>"
  "contents \<lparr>buffer = replicate 1000 zeroEvent, head = 0, tail = 0, size_rb = 0,
           capacity = 1000, full = False\<rparr> = []"
  by (simp_all add: rb_inv_def contents_def)

lemma Publish_loop_ok:
  assumes "\<forall>s\<in>set subs. map_of (clients ps) (sub_Client s) \<noteq> None"
    and "\<forall>c client. map_of (clients ps) c = Some client \<longrightarrow> rb_inv (Buffer client)"
  shows "\<exists>ps'. Publish_loop event now subs ps = Inr ps' \<and> topics ps' = topics ps \<and>
           clientTopics ps' = clientTopics ps \<and>
           (\<forall>c. map_of (clients ps') c = None \<longleftrightarrow> map_of (clients ps) c = None) \<and>
           (\<forall>c client. map_of (clients ps') c = Some client \<longrightarrow> rb_inv (Buffer client))"
  using assms
proof (induction subs arbitrary: ps)
  case Nil
  then show ?case by simp
next
  case (Cons s subs)
  from Cons.prems(1) obtain client where cl: "map_of (clients ps) (sub_Client s) = Some client"
    by auto
  show ?case
  proof (cases "Connected client")
    case False
    then show ?thesis using cl Cons.IH[of ps] Cons.prems by simp
  next
    case True
    have "rb_inv (Buffer client)" using cl Cons.prems(2) by blast
    then obtain b where b: "Push event (Buffer client) = Inr b" "rb_inv b"
      using Push_contents by blast
    obtain sent cs where o: "offer (WriteChan client) event (chans ps) = (sent, cs)"
      by (cases "offer (WriteChan client) event (chans ps)")
    define client2 where
      "client2 = (if sent then client\<lparr>Buffer := b, LastActive := now\<rparr> else client\<lparr>Buffer := b\<rparr>)"
    define ps1 where
      "ps1 = ps\<lparr>clients := AList.update (sub_Client s) client2 (clients ps), chans := cs\<rparr>"
    have step: "Publish_loop event now (s # subs) ps = Publish_loop event now subs ps1"
      using cl True b o by (simp add: client2_def ps1_def)
    have dom1: "\<forall>c. map_of (clients ps1) c = None \<longleftrightarrow> map_of (clients ps) c = None"
      using cl by (simp add: ps1_def update_conv')
    have p1: "\<forall>s\<in>set subs. map_of (clients ps1) (sub_Client s) \<noteq> None"
      using Cons.prems(1) dom1 by simp
    have p2: "\<forall>c client. map_of (clients ps1) c = Some client \<longrightarrow> rb_inv (Buffer client)"
      using Cons.prems(2) b(2) by (auto simp: ps1_def update_conv' client2_def)
    from Cons.IH[OF p1 p2] obtain ps' where r: "Publish_loop event now subs ps1 = Inr ps'"
      "topics ps' = topics ps1" "clientTopics ps' = clientTopics ps1"
      "\<forall>c. map_of (clients ps') c = None \<longleftrightarrow> map_of (clients ps1) c = None"
      "\<forall>c client. map_of (clients ps') c = Some client \<longrightarrow> rb_inv (Buffer client)"
      by blast
    show ?thesis using step r dom1 by (simp add: ps1_def)
  qed
qed

lemma Publish_effect:
  assumes w: "well_formed ps" and t: "map_of (topics ps) t = Some topic"
  shows "\<exists>ps' h. Publish t m sender now ps = Inr (None, ps') \<and>
           Push \<lparr>Type = ''event'', Topic = t, Message = m, Timestamp = now\<rparr>
             (MessageHistory topic) = Inr h \<and>
           rb_inv h \<and> capacity h = capacity (MessageHistory topic) \<and>
           contents h = last_k (nat (capacity (MessageHistory topic)))
                          (contents (MessageHistory topic) @
                           [\<lparr>Type = ''event'', Topic = t, Message = m, Timestamp = now\<rparr>]) \<and>
           topics ps' = AList.update t (topic\<lparr>MessageCount := MessageCount topic + 1,
                                            MessageHistory := h\<rparr>) (topics ps) \<and>
           clientTopics ps' = clientTopics ps \<and>
           (\<forall>c. map_of (clients ps') c = None \<longleftrightarrow> map_of (clients ps) c = None) \<and>
           (\<forall>c client. map_of (clients ps') c = Some client \<longrightarrow> rb_inv (Buffer client)) \<and>
           (Subscribers topic = [] \<longrightarrow> clients ps' = clients ps \<and> chans ps' = chans ps)"
proof -
  let ?e = "\<lparr>Type = ''event'', Topic = t, Message = m, Timestamp = now\<rparr>"
  have "rb_inv (MessageHistory topic)" using wf_topic[OF w t] by simp
  then obtain h where h: "Push ?e (MessageHistory topic) = Inr h" "rb_inv h"
    "capacity h = capacity (MessageHistory topic)"
    "contents h = last_k (nat (capacity (MessageHistory topic))) (contents (MessageHistory topic) @ [?e])"
    using Push_contents by blast
  define topic2 where "topic2 = topic\<lparr>MessageCount := MessageCount topic + 1, MessageHistory := h\<rparr>"
  define ps1 where "ps1 = ps\<lparr>topics := AList.update t topic2 (topics ps)\<rparr>"
  have P: "Publish t m sender now ps =
           (case Publish_loop ?e now (map snd (Subscribers topic)) ps1 of
              Inl p \<Rightarrow> Inl p | Inr ps2 \<Rightarrow> Inr (None, ps2))"
    using t h(1) by (simp add: Publish_def Let_def topic2_def ps1_def)
  have a1: "\<forall>s\<in>set (map snd (Subscribers topic)). map_of (clients ps1) (sub_Client s) \<noteq> None"
    using wf_subscribers_registered[OF w t] by (simp add: ps1_def)
  have a2: "\<forall>c client. map_of (clients ps1) c = Some client \<longrightarrow> rb_inv (Buffer client)"
    using wf_client[OF w] by (simp add: ps1_def)
  from Publish_loop_ok[OF a1 a2, of ?e now] obtain ps' where
    r: "Publish_loop ?e now (map snd (Subscribers topic)) ps1 = Inr ps'"
      "topics ps' = topics ps1" "clientTopics ps' = clientTopics ps1"
      "\<forall>c. map_of (clients ps') c = None \<longleftrightarrow> map_of (clients ps1) c = None"
      "\<forall>c client. map_of (clients ps') c = Some client \<longrightarrow> rb_inv (Buffer client)"
    by blast
  have z: "Subscribers topic = [] \<longrightarrow> clients ps' = clients ps \<and> chans ps' = chans ps"
    using r(1) by (auto simp: ps1_def)
  show ?thesis
    using P r h z by (simp add: ps1_def topic2_def)
qed

lemma Subscribe_effect:
  assumes t: "map_of (topics ps) t = Some topic" and h: "rb_inv (MessageHistory topic)"
  shows "\<exists>ms client.
           Subscribe c t n ch now ps =
             Inr ((ms, None),
                  ps\<lparr>clientTopics :=
                        AList.update c
                          (AList.update t True
                             (case map_of (clientTopics ps) c of None \<Rightarrow> [] | Some m \<Rightarrow> m))
                          (clientTopics ps),
                      clients := AList.update c client (clients ps),
                      topics :=
                        AList.update t
                          (topic\<lparr>Subscribers :=
                                   AList.update c
                                     \<lparr>sub_ClientID = c, sub_Topic = t, sub_Client = c\<rparr>
                                     (Subscribers topic)\<rparr>)
                          (topics ps)\<rparr>) \<and>
           client =
             (case map_of (clients ps) c of
                None \<Rightarrow>
                  \<lparr>ClientID = c,
                   Buffer = \<lparr>buffer = replicate 100 zeroEvent, head = 0, tail = 0, size_rb = 0,
                             capacity = 100, full = False\<rparr>,
                   WriteChan = ch, LastActive = now, Connected = True\<rparr>
              | Some old \<Rightarrow> old\<lparr>WriteChan := ch, Connected := True, LastActive := now\<rparr>) \<and>
           ms = (if n > 0
                 then last_k (nat (min n (size_rb (MessageHistory topic))))
                        (contents (MessageHistory topic))
                 else [])"
proof (cases "map_of (clients ps) c")
  case None
  then show ?thesis
    using t GetLastN_inv[OF h, of n]
    by (simp add: Subscribe_def Let_def NewRingBuffer_default)
next
  case (Some old)
  then show ?thesis
    using t GetLastN_inv[OF h, of n]
    by (simp add: Subscribe_def Let_def)
qed

lemma mem_drop_topic:
  assumes "map_of cts cid = Some ct"
  shows "mem (drop_topic cid ct name cts) c t \<longleftrightarrow> mem cts c t \<and> \<not> (c = cid \<and> t = name)"
proof (cases "c = cid")
  case False
  then show ?thesis by (simp add: mem_def drop_topic_def Let_def update_conv' delete_conv')
next
  case True
  show ?thesis
  proof (cases "AList.delete name ct = []")
    case e: True
    have n: "map_of ct t = Some True \<Longrightarrow> t = name"
      using delete_Nil_map_of[OF e, of t] by auto
    have "\<not> mem (drop_topic cid ct name cts) c t"
      using True e by (simp add: mem_def drop_topic_def delete_conv')
    moreover have "mem cts c t \<longleftrightarrow> map_of ct t = Some True"
      using True assms by (simp add: mem_def)
    ultimately show ?thesis using True n by blast
  next
    case False
    then show ?thesis using True assms
      by (auto simp: mem_def drop_topic_def Let_def update_conv' delete_conv')
  qed
qed

lemma all_true_drop_topic:
  assumes "all_true cts" "map_of cts cid = Some ct"
  shows "all_true (drop_topic cid ct name cts)"
  using assms unfolding all_true_def drop_topic_def Let_def
  by (auto simp: update_conv' delete_conv' split: if_splits)

lemma DeleteTopic_loop_ok:
  assumes "\<forall>s\<in>set subs. map_of (clients ps) (sub_Client s) \<noteq> None"
  shows "\<exists>ps'. DeleteTopic_loop name now newid subs ps = Inr ps' \<and>
           topics ps' = topics ps \<and> clients ps' = clients ps \<and>
           (\<forall>c t. mem (clientTopics ps') c t \<longleftrightarrow>
                    mem (clientTopics ps) c t \<and> \<not> (t = name \<and> c \<in> sub_ClientID ` set subs)) \<and>
           (all_true (clientTopics ps) \<longrightarrow> all_true (clientTopics ps'))"
  using assms
proof (induction subs arbitrary: ps)
  case Nil
  then show ?case by simp
next
  case (Cons s subs)
  from Cons.prems obtain client where cl: "map_of (clients ps) (sub_Client s) = Some client"
    by auto
  define notice where
    "notice = \<lparr>Type = ''info'', Topic = name,
               Message = \<lparr>ID = newid (sub_ClientID s), Payload = PString ''topic_deleted''\<rparr>,
               Timestamp = now\<rparr>"
  define ps1 where "ps1 = ps\<lparr>chans := snd (offer (WriteChan client) notice (chans ps))\<rparr>"
  define ps2 where
    "ps2 = (case map_of (clientTopics ps1) (sub_ClientID s) of
              Some ct \<Rightarrow> ps1\<lparr>clientTopics := drop_topic (sub_ClientID s) ct name (clientTopics ps1)\<rparr>
            | None \<Rightarrow> ps1)"
  have step: "DeleteTopic_loop name now newid (s # subs) ps = DeleteTopic_loop name now newid subs ps2"
    using cl
    by (cases "map_of (clientTopics ps) (sub_ClientID s)")
       (simp_all add: Let_def ps2_def ps1_def notice_def)
  have f: "topics ps2 = topics ps" "clients ps2 = clients ps"
    by (simp_all add: ps2_def ps1_def split: option.splits)
  have m: "\<forall>c t. mem (clientTopics ps2) c t \<longleftrightarrow>
                  mem (clientTopics ps) c t \<and> \<not> (t = name \<and> c = sub_ClientID s)"
  proof (cases "map_of (clientTopics ps) (sub_ClientID s)")
    case None
    then show ?thesis by (auto simp: ps2_def ps1_def mem_def)
  next
    case (Some ct)
    then show ?thesis using mem_drop_topic[OF Some] by (auto simp: ps2_def ps1_def)
  qed
  have a: "all_true (clientTopics ps) \<longrightarrow> all_true (clientTopics ps2)"
    using all_true_drop_topic by (auto simp: ps2_def ps1_def split: option.splits)
  have p: "\<forall>s\<in>set subs. map_of (clients ps2) (sub_Client s) \<noteq> None"
    using Cons.prems f by simp
  from Cons.IH[OF p] obtain ps' where
    r: "DeleteTopic_loop name now newid subs ps2 = Inr ps'" "topics ps' = topics ps2"
      "clients ps' = clients ps2"
      "\<forall>c t. mem (clientTopics ps') c t \<longleftrightarrow>
               mem (clientTopics ps2) c t \<and> \<not> (t = name \<and> c \<in> sub_ClientID ` set subs)"
      "all_true (clientTopics ps2) \<longrightarrow> all_true (clientTopics ps')"
    by blast
  show ?case
    using step r f m a by auto
qed

lemma DeleteTopic_effect:
  assumes w: "well_formed ps" and t: "map_of (topics ps) name = Some topic"
  shows "\<exists>ps'. DeleteTopic name now newid ps = Inr (None, ps') \<and>
           topics ps' = AList.delete name (topics ps) \<and> clients ps' = clients ps \<and>
           (\<forall>c t. mem (clientTopics ps') c t \<longleftrightarrow>
                    mem (clientTopics ps) c t \<and>
                    \<not> (t = name \<and> c \<in> fst ` set (Subscribers topic))) \<and>
           (all_true (clientTopics ps) \<longrightarrow> all_true (clientTopics ps'))"
proof -
  from DeleteTopic_loop_ok[OF wf_subscribers_registered[OF w t], of name now newid]
  obtain ps1 where
    r: "DeleteTopic_loop name now newid (map snd (Subscribers topic)) ps = Inr ps1"
      "topics ps1 = topics ps" "clients ps1 = clients ps"
      "\<forall>c t. mem (clientTopics ps1) c t \<longleftrightarrow>
               mem (clientTopics ps) c t \<and>
               \<not> (t = name \<and> c \<in> sub_ClientID ` set (map snd (Subscribers topic)))"
      "all_true (clientTopics ps) \<longrightarrow> all_true (clientTopics ps1)"
    by blast
  have "DeleteTopic name now newid ps = Inr (None, ps1\<lparr>topics := AList.delete name (topics ps1)\<rparr>)"
    using t r(1) by (simp add: DeleteTopic_def)
  then show ?thesis
    using r wf_subscriber_ids[OF w t] by simp
qed

lemma mem_delete_client:
  "mem (AList.delete c cts) c' t \<longleftrightarrow> mem cts c' t \<and> c' \<noteq> c"
  by (simp add: mem_def delete_conv')

lemma all_true_delete: "all_true cts \<Longrightarrow> all_true (AList.delete c cts)"
  by (auto simp: all_true_def delete_conv' split: if_splits)

lemma Disconnect_loop_frame:
  "clients (Disconnect_loop c ts ps) = clients ps \<and>
   clientTopics (Disconnect_loop c ts ps) = clientTopics ps \<and>
   chans (Disconnect_loop c ts ps) = chans ps"
  by (induction ts arbitrary: ps) (simp_all split: option.splits)

lemma Disconnect_loop_topics:
  "map_of (topics (Disconnect_loop c ts ps)) t =
     map_option
       (\<lambda>topic. if t \<in> set ts
                then topic\<lparr>Subscribers := AList.delete c (Subscribers topic)\<rparr> else topic)
       (map_of (topics ps) t)"
proof (induction ts arbitrary: ps)
  case Nil
  then show ?case by (simp add: option.map_ident)
next
  case (Cons t0 ts)
  define ps1 where
    "ps1 = (case map_of (topics ps) t0 of
              Some topic \<Rightarrow>
                ps\<lparr>topics :=
                     AList.update t0
                       (topic\<lparr>Subscribers := AList.delete c (Subscribers topic)\<rparr>) (topics ps)\<rparr>
            | None \<Rightarrow> ps)"
  have s: "Disconnect_loop c (t0 # ts) ps = Disconnect_loop c ts ps1"
    by (simp add: ps1_def)
  have t1: "map_of (topics ps1) t =
            (if t = t0
             then map_option (\<lambda>topic. topic\<lparr>Subscribers := AList.delete c (Subscribers topic)\<rparr>)
                    (map_of (topics ps) t0)
             else map_of (topics ps) t)"
    by (simp add: ps1_def update_conv' split: option.splits)
  show ?case
    unfolding s Cons.IH[of ps1] t1
    by (cases "map_of (topics ps) t0") (auto simp: delete_idem)
qed

lemma Subscribe_sections:
  "Subscribe c t n ch now ps =
     (case map_of (topics ps) t of
        None \<Rightarrow> Inr (([], Some (TopicNotFound t)), ps)
      | Some topic \<Rightarrow>
          (case Subscribe_register c ch now (Subscribe_mark c t ps) of
             Inl p \<Rightarrow> Inl p
           | Inr ps2 \<Rightarrow> Subscribe_attach c t n topic ps2))"
  by (auto simp: Subscribe_def Subscribe_mark_def Subscribe_register_def Subscribe_attach_def
      Let_def split: option.splits sum.splits)

lemma DisconnectClient_sections:
  "DisconnectClient c ps = Disconnect_scrub c (fst (Disconnect_mark c ps)) (snd (Disconnect_mark c ps))"
  by (simp add: DisconnectClient_def Disconnect_mark_def Disconnect_scrub_def Let_def
      split: option.splits)

lemma wf_small_world: "well_formed small_world"
  by (auto simp: well_formed_def small_world_def rb_inv_def split: if_splits)

lemma contents_small_world:
  "contents \<lparr>buffer = [ev ''a'', zeroEvent], head = 1, tail = 0, size_rb = 1, capacity = 2,
              full = False\<rparr> = [ev ''a'']"
  by (simp add: contents_def)


lemma topic_small_world:
  "map_of (topics small_world) ''T'' =
     Some \<lparr>Name = ''T'',
            Subscribers = [(''c1'', \<lparr>sub_ClientID = ''c1'', sub_Topic = ''T'',
                                      sub_Client = ''c1''\<rparr>)],
            MessageCount = 1, CreatedAt = 0,
            MessageHistory = \<lparr>buffer = [ev ''a'', zeroEvent], head = 1, tail = 0,
                               size_rb = 1, capacity = 2, full = False\<rparr>\<rparr>"
  by (simp add: small_world_def)

section \<open>Single operations of the core\<close>

text \<open>
  Claim C1, evaluated on the code. In the run of \<^verbatim>\<open>TestNoEchoBack\<close> the channel of
  client1 holds, after client1 has published, the very event it published: the fan-out
  of \<^verbatim>\<open>Publish\<close> does not leave the sender out.
\<close>

theorem Publish_echoes_sender:
  "map_sum id (\<lambda>(ps, lg). map_option queue (map_of (chans ps) 1)) (run echo_ops (init echo_chans, []))
   = Inr (Some [echo_event])"
  by (simp add: echo_ops_def echo_chans_def init_def echo_event_def CreateTopic_def Subscribe_def
      Publish_def NewRingBuffer_def TopicHistoryBufferSize_def DefaultBufferSize_def Push_def
      index_set_def rem_nonneg offer_def GetLastN_def Let_def)

text \<open>
  Claim C3. In a well-formed state: \<^verbatim>\<open>Publish\<close> to an absent topic returns the
  topic-not-found error and the state it was called in; \<^verbatim>\<open>Publish\<close> to an existing topic
  returns no error, the topic's \<^verbatim>\<open>MessageCount\<close> is the old one plus one, and its history
  is the old history with the event pushed, that is, the last events (up to the capacity)
  of the old contents followed by the event. This holds whatever the subscribers are; with
  no subscriber, the clients and the channels are untouched.
\<close>

theorem Publish_spec:
  assumes "well_formed ps"
  shows "(map_of (topics ps) t = None \<longrightarrow>
            Publish t m sender now ps = Inr (Some (TopicNotFound t), ps)) \<and>
         (\<forall>topic. map_of (topics ps) t = Some topic \<longrightarrow>
            (\<exists>ps' topic'.
               Publish t m sender now ps = Inr (None, ps') \<and>
               map_of (topics ps') t = Some topic' \<and>
               MessageCount topic' = MessageCount topic + 1 \<and>
               Push \<lparr>Type = ''event'', Topic = t, Message = m, Timestamp = now\<rparr>
                 (MessageHistory topic) = Inr (MessageHistory topic') \<and>
               contents (MessageHistory topic') =
                 last_k (nat (capacity (MessageHistory topic)))
                   (contents (MessageHistory topic) @
                    [\<lparr>Type = ''event'', Topic = t, Message = m, Timestamp = now\<rparr>]) \<and>
               (Subscribers topic = [] \<longrightarrow>
                  clients ps' = clients ps \<and> chans ps' = chans ps)))"
proof (intro conjI allI impI)
  assume "map_of (topics ps) t = None"
  then show "Publish t m sender now ps = Inr (Some (TopicNotFound t), ps)"
    by (simp add: Publish_def)
next
  fix topic assume t: "map_of (topics ps) t = Some topic"
  from Publish_effect[OF assms t, of m sender now] obtain ps' h where
    r: "Publish t m sender now ps = Inr (None, ps')"
      "Push \<lparr>Type = ''event'', Topic = t, Message = m, Timestamp = now\<rparr>
             (MessageHistory topic) = Inr h"
      "contents h = last_k (nat (capacity (MessageHistory topic)))
                          (contents (MessageHistory topic) @
                           [\<lparr>Type = ''event'', Topic = t, Message = m, Timestamp = now\<rparr>])"
      "topics ps' = AList.update t (topic\<lparr>MessageCount := MessageCount topic + 1,
                                            MessageHistory := h\<rparr>) (topics ps)"
      "Subscribers topic = [] \<longrightarrow> clients ps' = clients ps \<and> chans ps' = chans ps"
    by blast
  have "map_of (topics ps') t = Some (topic\<lparr>MessageCount := MessageCount topic + 1,
                                            MessageHistory := h\<rparr>)"
    by (simp add: r(4) update_conv')
  then show "\<exists>ps' topic'.
               Publish t m sender now ps = Inr (None, ps') \<and>
               map_of (topics ps') t = Some topic' \<and>
               MessageCount topic' = MessageCount topic + 1 \<and>
               Push \<lparr>Type = ''event'', Topic = t, Message = m, Timestamp = now\<rparr>
                 (MessageHistory topic) = Inr (MessageHistory topic') \<and>
               contents (MessageHistory topic') =
                 last_k (nat (capacity (MessageHistory topic)))
                   (contents (MessageHistory topic) @
                    [\<lparr>Type = ''event'', Topic = t, Message = m, Timestamp = now\<rparr>]) \<and>
               (Subscribers topic = [] \<longrightarrow>
                  clients ps' = clients ps \<and> chans ps' = chans ps)"
    using r by simp
qed

theorem Publish_spec_witness:
  "well_formed small_world \<and> map_of (topics small_world) ''U'' = None \<and>
   Publish ''U'' echo_message ''c2'' 5 small_world = Inr (Some (TopicNotFound ''U''), small_world) \<and>
   map_of (topics small_world) ''T'' \<noteq> None \<and>
   (\<exists>ps' topic'. Publish ''T'' echo_message ''c2'' 5 small_world = Inr (None, ps') \<and>
      map_of (topics ps') ''T'' = Some topic' \<and> MessageCount topic' = 2 \<and>
      contents (MessageHistory topic') =
        [ev ''a'', \<lparr>Type = ''event'', Topic = ''T'', Message = echo_message, Timestamp = 5\<rparr>])"
proof -
  have u: "map_of (topics small_world) ''U'' = None" by (simp add: small_world_def)
  have t: "map_of (topics small_world) ''T'' =
           Some \<lparr>Name = ''T'',
                  Subscribers = [(''c1'', \<lparr>sub_ClientID = ''c1'', sub_Topic = ''T'',
                                            sub_Client = ''c1''\<rparr>)],
                  MessageCount = 1, CreatedAt = 0,
                  MessageHistory = \<lparr>buffer = [ev ''a'', zeroEvent], head = 1, tail = 0,
                                     size_rb = 1, capacity = 2, full = False\<rparr>\<rparr>"
    by (simp add: small_world_def)
  from Publish_spec[OF wf_small_world, of "''U''" echo_message "''c2''" 5] u
  have 1: "Publish ''U'' echo_message ''c2'' 5 small_world = Inr (Some (TopicNotFound ''U''), small_world)"
    by simp
  from Publish_spec[OF wf_small_world, of "''T''" echo_message "''c2''" 5] t
  have 2: "\<exists>ps' topic'. Publish ''T'' echo_message ''c2'' 5 small_world = Inr (None, ps') \<and>
      map_of (topics ps') ''T'' = Some topic' \<and> MessageCount topic' = 2 \<and>
      contents (MessageHistory topic') =
        [ev ''a'', \<lparr>Type = ''event'', Topic = ''T'', Message = echo_message, Timestamp = 5\<rparr>]"
    by (simp add: contents_small_world last_k_def) blast
  show ?thesis using 1 2 u t wf_small_world by simp
qed




text \<open>
  Claim C9. For an existing topic t with a well-formed history, two consecutive calls
  \<^verbatim>\<open>Subscribe(c, t, _, _)\<close> both return without error, and the second leaves
  \<^verbatim>\<open>client_topics\<close> and the topics (with the subscriber map of t) exactly as the first left
  them; of the clients only the entry of c changes: its \<^verbatim>\<open>WriteChan\<close> is the channel of the
  second call, \<^verbatim>\<open>Connected\<close> is true and \<^verbatim>\<open>LastActive\<close> is the time of the second call. The
  channels themselves are untouched.
\<close>

theorem Subscribe_twice:
  assumes t: "map_of (topics ps) t = Some topic" and h: "rb_inv (MessageHistory topic)"
  shows "\<exists>ms1 ps1 ms2 ps2 client1.
           Subscribe c t n1 ch1 now1 ps = Inr ((ms1, None), ps1) \<and>
           Subscribe c t n2 ch2 now2 ps1 = Inr ((ms2, None), ps2) \<and>
           clientTopics ps2 = clientTopics ps1 \<and>
           topics ps2 = topics ps1 \<and>
           map_of (clients ps1) c = Some client1 \<and>
           clients ps2 =
             AList.update c (client1\<lparr>WriteChan := ch2, Connected := True, LastActive := now2\<rparr>)
               (clients ps1) \<and>
           chans ps2 = chans ps1"
proof -
  define subs1 where
    "subs1 = AList.update c \<lparr>sub_ClientID = c, sub_Topic = t, sub_Client = c\<rparr> (Subscribers topic)"
  define cts1 where
    "cts1 = AList.update c
              (AList.update t True (case map_of (clientTopics ps) c of None \<Rightarrow> [] | Some m \<Rightarrow> m))
              (clientTopics ps)"
  from Subscribe_effect[OF t h, of c n1 ch1 now1] obtain ms1 client1 where
    s1: "Subscribe c t n1 ch1 now1 ps =
           Inr ((ms1, None),
                ps\<lparr>clientTopics := cts1, clients := AList.update c client1 (clients ps),
                    topics := AList.update t (topic\<lparr>Subscribers := subs1\<rparr>) (topics ps)\<rparr>)"
    unfolding subs1_def cts1_def by blast
  define ps1 where
    "ps1 = ps\<lparr>clientTopics := cts1, clients := AList.update c client1 (clients ps),
              topics := AList.update t (topic\<lparr>Subscribers := subs1\<rparr>) (topics ps)\<rparr>"
  have t1: "map_of (topics ps1) t = Some (topic\<lparr>Subscribers := subs1\<rparr>)"
    by (simp add: ps1_def update_conv')
  have h1: "rb_inv (MessageHistory (topic\<lparr>Subscribers := subs1\<rparr>))" using h by simp
  have c1: "map_of (clients ps1) c = Some client1" by (simp add: ps1_def update_conv')
  have m1: "map_of (clientTopics ps1) c =
            Some (AList.update t True (case map_of (clientTopics ps) c of None \<Rightarrow> [] | Some m \<Rightarrow> m))"
    by (simp add: ps1_def cts1_def update_conv')
  from Subscribe_effect[OF t1 h1, of c n2 ch2 now2] obtain ms2 where
    s2: "Subscribe c t n2 ch2 now2 ps1 =
           Inr ((ms2, None),
                ps1\<lparr>clientTopics :=
                      AList.update c
                        (AList.update t True
                           (AList.update t True
                              (case map_of (clientTopics ps) c of None \<Rightarrow> [] | Some m \<Rightarrow> m)))
                        (clientTopics ps1),
                    clients :=
                      AList.update c
                        (client1\<lparr>WriteChan := ch2, Connected := True, LastActive := now2\<rparr>)
                        (clients ps1),
                    topics :=
                      AList.update t
                        (topic\<lparr>Subscribers :=
                                 AList.update c
                                   \<lparr>sub_ClientID = c, sub_Topic = t, sub_Client = c\<rparr> subs1\<rparr>)
                        (topics ps1)\<rparr>)"
    by (auto simp: c1 m1)
  have e1: "AList.update c
              (AList.update t True
                 (AList.update t True
                    (case map_of (clientTopics ps) c of None \<Rightarrow> [] | Some m \<Rightarrow> m)))
              (clientTopics ps1) = clientTopics ps1"
    by (simp add: ps1_def cts1_def)
  have e2: "AList.update t
              (topic\<lparr>Subscribers :=
                       AList.update c \<lparr>sub_ClientID = c, sub_Topic = t, sub_Client = c\<rparr> subs1\<rparr>)
              (topics ps1) = topics ps1"
    by (simp add: ps1_def subs1_def)
  show ?thesis
    using s1 s2 c1 e1 e2 unfolding ps1_def[symmetric] by simp
qed

theorem Subscribe_twice_witness:
  "map_of (topics small_world) ''T'' \<noteq> None \<and>
   (\<exists>ms1 ps1 ms2 ps2 client1.
      Subscribe ''c2'' ''T'' 1 1 3 small_world = Inr ((ms1, None), ps1) \<and>
      Subscribe ''c2'' ''T'' 0 2 4 ps1 = Inr ((ms2, None), ps2) \<and>
      clientTopics ps2 = clientTopics ps1 \<and> topics ps2 = topics ps1 \<and>
      map_of (clients ps1) ''c2'' = Some client1 \<and>
      clients ps2 =
        AList.update ''c2'' (client1\<lparr>WriteChan := 2, Connected := True, LastActive := 4\<rparr>)
          (clients ps1) \<and>
      chans ps2 = chans ps1)"
proof -
  have h: "rb_inv (MessageHistory
            \<lparr>Name = ''T'',
             Subscribers = [(''c1'', \<lparr>sub_ClientID = ''c1'', sub_Topic = ''T'',
                                      sub_Client = ''c1''\<rparr>)],
             MessageCount = 1, CreatedAt = 0,
             MessageHistory = \<lparr>buffer = [ev ''a'', zeroEvent], head = 1, tail = 0,
                               size_rb = 1, capacity = 2, full = False\<rparr>\<rparr>)"
    by (simp add: rb_inv_def)
  show ?thesis
    using Subscribe_twice[OF topic_small_world h, of "''c2''" 1 1 3 0 2 4] topic_small_world
    by simp
qed

text \<open>
  Claim C10. When \<^verbatim>\<open>client_topics[c]\<close> contains t and no topic t exists, \<^verbatim>\<open>Unsubscribe\<close>
  returns the topic-not-found error and has removed t from \<^verbatim>\<open>client_topics[c]\<close>, deleting
  the entry of c when its set became empty: the state it returns differs from the one it
  was called in.
\<close>

theorem Unsubscribe_topic_missing:
  assumes "map_of (clientTopics ps) c = Some ct" "map_of ct t = Some True"
    "map_of (topics ps) t = None"
  shows "Unsubscribe c t ps =
           (Some (TopicNotFound t), ps\<lparr>clientTopics := drop_topic c ct t (clientTopics ps)\<rparr>) \<and>
         \<not> mem (clientTopics (snd (Unsubscribe c t ps))) c t \<and>
         map_of (clientTopics (snd (Unsubscribe c t ps))) c =
           (if AList.delete t ct = [] then None else Some (AList.delete t ct)) \<and>
         snd (Unsubscribe c t ps) \<noteq> ps"
proof -
  have U: "Unsubscribe c t ps =
           (Some (TopicNotFound t), ps\<lparr>clientTopics := drop_topic c ct t (clientTopics ps)\<rparr>)"
    using assms by (simp add: Unsubscribe_def Let_def)
  have M: "map_of (drop_topic c ct t (clientTopics ps)) c =
           (if AList.delete t ct = [] then None else Some (AList.delete t ct))"
    by (simp add: drop_topic_def Let_def delete_conv' update_conv')
  have N: "\<not> mem (drop_topic c ct t (clientTopics ps)) c t"
    by (simp add: mem_def M delete_conv')
  have "map_of (drop_topic c ct t (clientTopics ps)) c \<noteq> map_of (clientTopics ps) c"
  proof (cases "AList.delete t ct = []")
    case True then show ?thesis using assms(1) M by simp
  next
    case False
    have "AList.delete t ct \<noteq> ct"
    proof
      assume "AList.delete t ct = ct"
      then have "map_of (AList.delete t ct) t = map_of ct t" by simp
      then show False using assms(2) by (simp add: delete_conv')
    qed
    then show ?thesis using assms(1) M False by simp
  qed
  then have "clientTopics (ps\<lparr>clientTopics := drop_topic c ct t (clientTopics ps)\<rparr>) \<noteq> clientTopics ps"
    by auto
  then have "ps\<lparr>clientTopics := drop_topic c ct t (clientTopics ps)\<rparr> \<noteq> ps"
    by metis
  then show ?thesis using U M N by simp
qed

theorem Unsubscribe_topic_missing_witness:
  "map_of (clientTopics stale_world) ''c1'' = Some [(''T'', True)] \<and>
   map_of [(''T'', True)] ''T'' = Some True \<and>
   map_of (topics stale_world) ''T'' = None \<and>
   Unsubscribe ''c1'' ''T'' stale_world =
     (Some (TopicNotFound ''T''), stale_world\<lparr>clientTopics := []\<rparr>) \<and>
   \<not> mem (clientTopics (snd (Unsubscribe ''c1'' ''T'' stale_world))) ''c1'' ''T''"
proof -
  have h1: "map_of (clientTopics stale_world) ''c1'' = Some [(''T'', True)]"
    and h2: "map_of [(''T'', True)] ''T'' = Some True"
    and h3: "map_of (topics stale_world) ''T'' = None"
    by (simp_all add: stale_world_def)
  have d: "drop_topic ''c1'' [(''T'', True)] ''T'' (clientTopics stale_world) = []"
    by (simp add: stale_world_def drop_topic_def)
  show ?thesis
    using Unsubscribe_topic_missing[OF h1 h2 h3] h1 h2 h3 by (simp add: d mem_def)
qed

section \<open>Invalid requests in the session\<close>

lemma offer_cases:
  "offer r e cs = (False, cs) \<or>
   (\<exists>ch. map_of cs r = Some ch \<and> length (queue ch) < chan_cap ch \<and>
         offer r e cs = (True, AList.update r (ch\<lparr>queue := queue ch @ [e]\<rparr>) cs))"
  by (auto simp: offer_def split: option.splits)

lemma sendMessage_core:
  "topics (snd (sendMessage c m ps)) = topics ps \<and>
   clients (snd (sendMessage c m ps)) = clients ps \<and>
   clientTopics (snd (sendMessage c m ps)) = clientTopics ps"
  by (auto simp: sendMessage_def split: option.splits prod.splits Outgoing.splits)

lemma handleSubscribe_invalid:
  "s_RequestID req = [] \<or> s_ClientID req = [] \<Longrightarrow>
   \<exists>err. handleSubscribe c req now ps = Inr (Some err, c, ps) \<and> Code err = ''BAD_REQUEST''"
  by (auto simp: handleSubscribe_def)

lemma handleUnsubscribe_invalid:
  "u_RequestID req = [] \<or> u_ClientID req = [] \<Longrightarrow>
   \<exists>err. handleUnsubscribe c req now ps = (Some err, c, ps) \<and> Code err = ''BAD_REQUEST''"
  by (auto simp: handleUnsubscribe_def)

lemma handlePublish_invalid:
  "p_RequestID req = [] \<or> (clientID c = [] \<and> p_ClientID req = []) \<Longrightarrow>
   \<exists>err. handlePublish valid_uuid c req now ps = Inr (Some err, c, ps) \<and>
         Code err = ''BAD_REQUEST''"
  by (auto simp: handlePublish_def)

lemma handlePing_invalid:
  "pg_RequestID req = [] \<Longrightarrow>
   \<exists>err. handlePing c req now ps = (Some err, c, ps) \<and> Code err = ''BAD_REQUEST''"
  by (auto simp: handlePing_def)

lemma processPump_handler_error:
  "handleMessage valid_uuid c data now ps = Inr (Some err, c1, ps1) \<Longrightarrow>
   processPump valid_uuid c data now ps =
     Inr (c1,
          snd (sendMessage c1
                 (OutError \<lparr>e_Type = ''error'', e_RequestID = [],
                            e_Error = \<lparr>Code = ''PROCESSING_ERROR'', ErrMessage = ErrMessage err\<rparr>,
                            e_Timestamp = now\<rparr>) ps1))"
  by (simp add: processPump_def)

lemma handlePublish_non_uuid:
  assumes "p_RequestID req \<noteq> []" "clientID c \<noteq> []"
    "p_ClientID req = [] \<or> p_ClientID req = clientID c"
    "ID (p_Message req) = [] \<or> \<not> valid_uuid (ID (p_Message req))"
  shows "handlePublish valid_uuid c req now ps =
           Inr (fst (sendMessage c
                       (OutError \<lparr>e_Type = ''error'', e_RequestID = p_RequestID req,
                                  e_Error = \<lparr>Code = ''BAD_REQUEST'',
                                             ErrMessage = ''message.id must be a valid UUID''\<rparr>,
                                  e_Timestamp = now\<rparr>) ps),
                c,
                snd (sendMessage c
                       (OutError \<lparr>e_Type = ''error'', e_RequestID = p_RequestID req,
                                  e_Error = \<lparr>Code = ''BAD_REQUEST'',
                                             ErrMessage = ''message.id must be a valid UUID''\<rparr>,
                                  e_Timestamp = now\<rparr>) ps))"
  using assms by (auto simp: handlePublish_def Let_def split: prod.splits)

lemma handleMessage_invalid_core:
  assumes "invalid_request valid_uuid c req"
  shows "\<exists>r c1 ps1. handleMessage valid_uuid c (Parsed req) now ps = Inr (r, c1, ps1) \<and>
           topics ps1 = topics ps \<and> clients ps1 = clients ps \<and>
           clientTopics ps1 = clientTopics ps"
proof (cases req)
  case (SubscribeReq x)
  then show ?thesis
    using assms handleSubscribe_invalid[of x c now ps] by (auto simp: handleMessage_def)
next
  case (UnsubscribeReq x)
  then show ?thesis
    using assms handleUnsubscribe_invalid[of x c now ps] by (auto simp: handleMessage_def)
next
  case (PublishReq x)
  have bad: "p_RequestID x = [] \<or> (clientID c = [] \<and> p_ClientID x = []) \<or>
             ID (p_Message x) = [] \<or> \<not> valid_uuid (ID (p_Message x))"
    using assms PublishReq by simp
  have "\<exists>r c1 ps1. handlePublish valid_uuid c x now ps = Inr (r, c1, ps1) \<and>
           topics ps1 = topics ps \<and> clients ps1 = clients ps \<and>
           clientTopics ps1 = clientTopics ps"
  proof (cases "p_RequestID x = [] \<or> (clientID c = [] \<and> p_ClientID x = [])")
    case True
    then show ?thesis using handlePublish_invalid[of x c valid_uuid now ps] by blast
  next
    case False
    show ?thesis
    proof (cases "clientID c \<noteq> [] \<and> p_ClientID x \<noteq> [] \<and> clientID c \<noteq> p_ClientID x")
      case True
      then show ?thesis using False by (simp add: handlePublish_def)
    next
      case ok: False
      have u: "ID (p_Message x) = [] \<or> \<not> valid_uuid (ID (p_Message x))"
        using bad False by blast
      show ?thesis
        using False ok u sendMessage_core
        by (simp add: handlePublish_def Let_def case_prod_beta)
    qed
  qed
  then show ?thesis using PublishReq by (simp add: handleMessage_def)
next
  case (PingReq x)
  then show ?thesis
    using assms handlePing_invalid[of x c now ps] by (auto simp: handleMessage_def)
qed

lemma invalid_request_core_unchanged:
  assumes "invalid_request valid_uuid c req"
  shows "\<exists>c1 ps1. processPump valid_uuid c (Parsed req) now ps = Inr (c1, ps1) \<and>
           topics ps1 = topics ps \<and> clients ps1 = clients ps \<and>
           clientTopics ps1 = clientTopics ps"
proof -
  from handleMessage_invalid_core[OF assms, of now ps] obtain r c1 ps1 where
    h: "handleMessage valid_uuid c (Parsed req) now ps = Inr (r, c1, ps1)"
      "topics ps1 = topics ps" "clients ps1 = clients ps" "clientTopics ps1 = clientTopics ps"
    by blast
  show ?thesis
  proof (cases r)
    case None
    then show ?thesis using h by (simp add: processPump_def)
  next
    case (Some err)
    then show ?thesis using h sendMessage_core by (simp add: processPump_def)
  qed
qed

text \<open>
  Claim C2, evaluated on the code. A subscribe request without \<^verbatim>\<open>request_id\<close> on a fresh
  session is answered with one error frame whose code is \<^verbatim>\<open>PROCESSING_ERROR\<close>, not
  \<^verbatim>\<open>BAD_REQUEST\<close>: the handler returns \<^verbatim>\<open>BAD_REQUEST\<close> and \<^verbatim>\<open>processPump\<close> drops the code
  (\<open>handleSubscribe_invalid\<close>, \<open>processPump_handler_error\<close>). The registries of the core
  stay as they were, for this and for every invalid request
  (\<open>invalid_request_core_unchanged\<close>).
\<close>

theorem processPump_missing_request_id:
  "processPump valid_uuid fresh_session subscribe_no_request_id 7 session_world =
     Inr (fresh_session,
          session_world\<lparr>chans :=
            [(1, \<lparr>queue = [\<lparr>Type = ''error'', Topic = [],
                             Message = \<lparr>ID = [],
                                        Payload = PError \<lparr>Code = ''PROCESSING_ERROR'',
                                                          ErrMessage = ''request_id is required''\<rparr>\<rparr>,
                             Timestamp = 7\<rparr>],
                   chan_cap = 256\<rparr>)]\<rparr>)"
  by (simp add: processPump_def handleMessage_def handleSubscribe_def subscribe_no_request_id_def
      fresh_session_def session_world_def init_def sendMessage_def offer_def)

section \<open>Runs of the core\<close>

lemma published_append: "published t (xs @ ys) = published t xs @ published t ys"
  by (induction t xs rule: published.induct) simp_all

lemma since_created_snoc: "since_created t (lg @ [en]) = observe t (since_created t lg) en"
  by (simp add: since_created_def)

lemma suffix_since_created: "suffix (since_created t lg) (published t lg)"
proof (induction lg rule: rev_induct)
  case Nil
  then show ?case by (simp add: since_created_def)
next
  case (snoc en lg)
  then show ?case
    by (cases en) (simp_all add: since_created_snoc published_append suffix_def)
qed

lemma since_created_Created:
  "since_created t (lg @ [Created t']) = (if t' = t then [] else since_created t lg)"
  by (simp add: since_created_snoc)

lemma since_created_Published:
  "since_created t (lg @ [Published t' e]) =
     (if t' = t then since_created t lg @ [e] else since_created t lg)"
  by (simp add: since_created_snoc)

lemma init_registries:
  "topics (init cs) = topics NewPubSubSystem \<and> clients (init cs) = clients NewPubSubSystem \<and>
   clientTopics (init cs) = clientTopics NewPubSubSystem \<and> chans (init cs) = cs"
  by (simp add: init_def NewPubSubSystem_def)

lemma inv_init: "core_inv (init cs) []"
  by (simp add: core_inv_def well_formed_def edges_def hist_inv_def init_def mem_def subscribed_def all_true_def)

lemma step_CreateTopic:
  assumes "core_inv ps lg"
  shows "\<exists>ps' new. step (OpCreateTopic name now) ps = Inr (ps', new) \<and> core_inv ps' (lg @ new)"
proof (cases "map_of (topics ps) name")
  case (Some x)
  then show ?thesis using assms by (simp add: CreateTopic_def)
next
  case None
  define topic where
    "topic = \<lparr>Name = name, Subscribers = [], MessageCount = 0, CreatedAt = now,
              MessageHistory = \<lparr>buffer = replicate 1000 zeroEvent, head = 0, tail = 0,
                                 size_rb = 0, capacity = 1000, full = False\<rparr>\<rparr>"
  define ps' where "ps' = ps\<lparr>topics := AList.update name topic (topics ps)\<rparr>"
  have s: "step (OpCreateTopic name now) ps = Inr (ps', [Created name])"
    using None by (simp add: CreateTopic_def NewRingBuffer_history ps'_def topic_def)
  have w: "well_formed ps" and e: "edges ps" and h: "hist_inv ps lg" using assms by (simp_all add: core_inv_def)
  have tp: "\<And>t. map_of (topics ps') t = (if t = name then Some topic else map_of (topics ps) t)"
    by (simp add: ps'_def update_conv')
  have cl: "clients ps' = clients ps" and ct: "clientTopics ps' = clientTopics ps"
    by (simp_all add: ps'_def)
  have w': "well_formed ps'"
  proof (rule wfI)
    fix t tp' assume "map_of (topics ps') t = Some tp'"
    then show "rb_inv (MessageHistory tp')"
      using wf_topic[OF w, of t tp'] history_fresh(1) by (auto simp: tp topic_def split: if_splits)
  next
    fix t tp' k s assume "map_of (topics ps') t = Some tp'" "(k, s) \<in> set (Subscribers tp')"
    then show "sub_ClientID s = k \<and> sub_Client s = k \<and> map_of (clients ps') k \<noteq> None"
      using wf_sub[OF w, of t tp' k s] by (auto simp: tp topic_def cl split: if_splits)
  next
    fix c client assume "map_of (clients ps') c = Some client"
    then show "rb_inv (Buffer client)" using wf_client[OF w, of c client] by (simp add: cl)
  qed
  have nm: "\<And>c. \<not> mem (clientTopics ps) c name"
    using e None by (simp add: edges_def subscribed_def)
  have e': "edges ps'"
    unfolding edges_def
  proof (intro conjI allI)
    fix c t
    show "mem (clientTopics ps') c t \<longleftrightarrow> subscribed ps' c t"
    proof (cases "t = name")
      case True
      then show ?thesis using nm[of c] by (simp add: subscribed_def tp topic_def ct)
    next
      case False
      then show ?thesis using e by (simp add: edges_def subscribed_def tp ct)
    qed
  next
    show "all_true (clientTopics ps')" using e by (simp add: edges_def ct)
  qed
  have h': "hist_inv ps' (lg @ [Created name])"
    unfolding hist_inv_def
  proof (intro allI impI)
    fix t tp' assume a: "map_of (topics ps') t = Some tp'"
    show "capacity (MessageHistory tp') = TopicHistoryBufferSize \<and>
          contents (MessageHistory tp') =
            last_k (nat TopicHistoryBufferSize) (since_created t (lg @ [Created name]))"
    proof (cases "t = name")
      case True
      then have "tp' = topic" using a by (simp add: tp)
      then show ?thesis using True history_fresh(2)
        by (simp add: topic_def since_created_Created TopicHistoryBufferSize_def last_k_def)
    next
      case False
      then show ?thesis using a h by (simp add: tp hist_inv_def since_created_Created)
    qed
  qed
  show ?thesis using s w' e' h' by (simp add: core_inv_def)
qed

lemma step_Subscribe:
  assumes "core_inv ps lg"
  shows "\<exists>ps' new. step (OpSubscribe c t n ch now) ps = Inr (ps', new) \<and> core_inv ps' (lg @ new)"
proof (cases "map_of (topics ps) t")
  case None
  then show ?thesis using assms by (simp add: Subscribe_def)
next
  case (Some topic)
  have w: "well_formed ps" and e: "edges ps" and h: "hist_inv ps lg" using assms by (simp_all add: core_inv_def)
  have hi: "rb_inv (MessageHistory topic)" using wf_topic[OF w Some] by simp
  define ct0 where "ct0 = (case map_of (clientTopics ps) c of None \<Rightarrow> [] | Some m \<Rightarrow> m)"
  define sub where "sub = \<lparr>sub_ClientID = c, sub_Topic = t, sub_Client = c\<rparr>"
  define topic' where "topic' = topic\<lparr>Subscribers := AList.update c sub (Subscribers topic)\<rparr>"
  from Subscribe_effect[OF Some hi, of c n ch now] obtain ms client where
    r: "Subscribe c t n ch now ps =
          Inr ((ms, None),
               ps\<lparr>clientTopics := AList.update c (AList.update t True ct0) (clientTopics ps),
                   clients := AList.update c client (clients ps),
                   topics := AList.update t topic' (topics ps)\<rparr>)"
    and cdef: "client =
             (case map_of (clients ps) c of
                None \<Rightarrow>
                  \<lparr>ClientID = c,
                   Buffer = \<lparr>buffer = replicate 100 zeroEvent, head = 0, tail = 0, size_rb = 0,
                             capacity = 100, full = False\<rparr>,
                   WriteChan = ch, LastActive = now, Connected = True\<rparr>
              | Some old \<Rightarrow> old\<lparr>WriteChan := ch, Connected := True, LastActive := now\<rparr>)"
    unfolding ct0_def sub_def topic'_def by blast
  define ps' where
    "ps' = ps\<lparr>clientTopics := AList.update c (AList.update t True ct0) (clientTopics ps),
              clients := AList.update c client (clients ps),
              topics := AList.update t topic' (topics ps)\<rparr>"
  have s: "step (OpSubscribe c t n ch now) ps = Inr (ps', [])"
    using r by (simp add: ps'_def)
  have tp: "\<And>t'. map_of (topics ps') t' = (if t' = t then Some topic' else map_of (topics ps) t')"
    by (simp add: ps'_def update_conv')
  have cl: "\<And>k. map_of (clients ps') k = (if k = c then Some client else map_of (clients ps) k)"
    by (simp add: ps'_def update_conv')
  have ct: "\<And>c'. map_of (clientTopics ps') c' =
              (if c' = c then Some (AList.update t True ct0) else map_of (clientTopics ps) c')"
    by (simp add: ps'_def update_conv')
  have cb: "rb_inv (Buffer client)"
    using wf_client[OF w, of c] rb_inv_default by (auto simp: cdef split: option.splits)
  have w': "well_formed ps'"
  proof (rule wfI)
    fix t' tp' assume "map_of (topics ps') t' = Some tp'"
    then show "rb_inv (MessageHistory tp')"
      using wf_topic[OF w, of t' tp'] hi by (auto simp: tp topic'_def split: if_splits)
  next
    fix t' tp' k s assume a: "map_of (topics ps') t' = Some tp'" "(k, s) \<in> set (Subscribers tp')"
    show "sub_ClientID s = k \<and> sub_Client s = k \<and> map_of (clients ps') k \<noteq> None"
    proof (cases "t' = t")
      case True
      then have "(k, s) \<in> insert (c, sub) (set (Subscribers topic))"
        using a set_update_subset[of c sub "Subscribers topic"] by (auto simp: tp topic'_def)
      then show ?thesis using wf_sub[OF w Some, of k s] by (auto simp: sub_def cl)
    next
      case False
      then show ?thesis using wf_sub[OF w, of t' tp' k s] a by (auto simp: tp cl)
    qed
  next
    fix k cl' assume "map_of (clients ps') k = Some cl'"
    then show "rb_inv (Buffer cl')"
      using wf_client[OF w, of k cl'] cb by (auto simp: cl split: if_splits)
  qed
  have m0: "\<And>t'. map_of ct0 t' = Some True \<longleftrightarrow> mem (clientTopics ps) c t'"
    by (simp add: ct0_def mem_def split: option.splits)
  have m': "\<And>c' t'. mem (clientTopics ps') c' t' \<longleftrightarrow>
                mem (clientTopics ps) c' t' \<or> (c' = c \<and> t' = t)"
    using m0 by (auto simp: mem_def ct update_conv')
  have s': "\<And>c' t'. subscribed ps' c' t' \<longleftrightarrow> subscribed ps c' t' \<or> (c' = c \<and> t' = t)"
    using Some by (auto simp: subscribed_def tp topic'_def dom_update)
  have at: "all_true (clientTopics ps)" using e by (simp add: edges_def)
  have a0: "\<And>t'. map_of ct0 t' \<noteq> Some False"
    using at by (auto simp: ct0_def all_true_def split: option.splits)
  have at': "all_true (clientTopics ps')"
    unfolding all_true_def
  proof (intro allI impI)
    fix c' m t' assume "map_of (clientTopics ps') c' = Some m"
    then show "map_of m t' \<noteq> Some False"
      using at a0[of t'] by (auto simp: ct all_true_def update_conv' split: if_splits)
  qed
  have e': "edges ps'"
    using e m' s' at' by (simp add: edges_def)
  have h': "hist_inv ps' lg"
    unfolding hist_inv_def
  proof (intro allI impI)
    fix t' tp' assume a: "map_of (topics ps') t' = Some tp'"
    show "capacity (MessageHistory tp') = TopicHistoryBufferSize \<and>
          contents (MessageHistory tp') = last_k (nat TopicHistoryBufferSize) (since_created t' lg)"
      using a h Some by (auto simp: tp hist_inv_def topic'_def split: if_splits)
  qed
  show ?thesis using s w' e' h' by (simp add: core_inv_def)
qed

lemma step_Unsubscribe:
  assumes "core_inv ps lg"
  shows "\<exists>ps' new. step (OpUnsubscribe c t) ps = Inr (ps', new) \<and> core_inv ps' (lg @ new)"
proof (cases "mem (clientTopics ps) c t")
  case False
  then have "Unsubscribe c t ps = (Some (NotSubscribed c t), ps)"
    by (auto simp: Unsubscribe_def mem_def split: option.splits)
  then show ?thesis using assms by simp
next
  case True
  have w: "well_formed ps" and e: "edges ps" and h: "hist_inv ps lg" using assms by (simp_all add: core_inv_def)
  from True obtain ct0 where c0: "map_of (clientTopics ps) c = Some ct0" "map_of ct0 t = Some True"
    by (auto simp: mem_def split: option.splits)
  have "subscribed ps c t" using e True by (simp add: edges_def)
  then obtain topic where tp0: "map_of (topics ps) t = Some topic"
    by (auto simp: subscribed_def split: option.splits)
  define topic' where "topic' = topic\<lparr>Subscribers := AList.delete c (Subscribers topic)\<rparr>"
  define ps' where
    "ps' = ps\<lparr>clientTopics := drop_topic c ct0 t (clientTopics ps),
              topics := AList.update t topic' (topics ps)\<rparr>"
  have u: "Unsubscribe c t ps = (None, ps')"
    using c0 tp0 by (simp add: Unsubscribe_def Let_def ps'_def topic'_def)
  have tp: "\<And>t'. map_of (topics ps') t' = (if t' = t then Some topic' else map_of (topics ps) t')"
    by (simp add: ps'_def update_conv')
  have cl: "clients ps' = clients ps" by (simp add: ps'_def)
  have ct: "clientTopics ps' = drop_topic c ct0 t (clientTopics ps)" by (simp add: ps'_def)
  have w': "well_formed ps'"
  proof (rule wfI)
    fix t' tp' assume "map_of (topics ps') t' = Some tp'"
    then show "rb_inv (MessageHistory tp')"
      using wf_topic[OF w, of t' tp'] wf_topic[OF w tp0]
      by (auto simp: tp topic'_def split: if_splits)
  next
    fix t' tp' k s assume a: "map_of (topics ps') t' = Some tp'" "(k, s) \<in> set (Subscribers tp')"
    show "sub_ClientID s = k \<and> sub_Client s = k \<and> map_of (clients ps') k \<noteq> None"
    proof (cases "t' = t")
      case True
      then have "(k, s) \<in> set (Subscribers topic)"
        using a set_delete_subset[of c "Subscribers topic"] by (auto simp: tp topic'_def)
      then show ?thesis using wf_sub[OF w tp0, of k s] by (simp add: cl)
    next
      case False
      then show ?thesis using wf_sub[OF w, of t' tp' k s] a by (auto simp: tp cl)
    qed
  next
    fix k cl' assume "map_of (clients ps') k = Some cl'"
    then show "rb_inv (Buffer cl')" using wf_client[OF w, of k cl'] by (simp add: cl)
  qed
  have m': "\<And>c' t'. mem (clientTopics ps') c' t' \<longleftrightarrow>
                mem (clientTopics ps) c' t' \<and> \<not> (c' = c \<and> t' = t)"
    using mem_drop_topic[OF c0(1)] by (simp add: ct)
  have s': "\<And>c' t'. subscribed ps' c' t' \<longleftrightarrow> subscribed ps c' t' \<and> \<not> (c' = c \<and> t' = t)"
    using tp0 by (auto simp: subscribed_def tp topic'_def keys_delete)
  have at': "all_true (clientTopics ps')"
    using e all_true_drop_topic[OF _ c0(1)] by (simp add: edges_def ct)
  have e': "edges ps'"
    using e m' s' at' by (simp add: edges_def)
  have h': "hist_inv ps' lg"
    unfolding hist_inv_def
  proof (intro allI impI)
    fix t' tp' assume a: "map_of (topics ps') t' = Some tp'"
    show "capacity (MessageHistory tp') = TopicHistoryBufferSize \<and>
          contents (MessageHistory tp') = last_k (nat TopicHistoryBufferSize) (since_created t' lg)"
      using a h tp0 by (auto simp: tp hist_inv_def topic'_def split: if_splits)
  qed
  show ?thesis using u w' e' h' by (simp add: core_inv_def)
qed

lemma step_Publish:
  assumes "core_inv ps lg"
  shows "\<exists>ps' new. step (OpPublish t m sender now) ps = Inr (ps', new) \<and> core_inv ps' (lg @ new)"
proof (cases "map_of (topics ps) t")
  case None
  then show ?thesis using assms by (simp add: Publish_def)
next
  case (Some topic)
  have w: "well_formed ps" and e: "edges ps" and h: "hist_inv ps lg" using assms by (simp_all add: core_inv_def)
  let ?e = "\<lparr>Type = ''event'', Topic = t, Message = m, Timestamp = now\<rparr>"
  from Publish_effect[OF w Some, of m sender now] obtain ps' hh where
    r: "Publish t m sender now ps = Inr (None, ps')"
      "rb_inv hh" "capacity hh = capacity (MessageHistory topic)"
      "contents hh = last_k (nat (capacity (MessageHistory topic)))
                          (contents (MessageHistory topic) @ [?e])"
      "topics ps' = AList.update t (topic\<lparr>MessageCount := MessageCount topic + 1,
                                            MessageHistory := hh\<rparr>) (topics ps)"
      "clientTopics ps' = clientTopics ps"
      "\<forall>c. map_of (clients ps') c = None \<longleftrightarrow> map_of (clients ps) c = None"
      "\<forall>c client. map_of (clients ps') c = Some client \<longrightarrow> rb_inv (Buffer client)"
    by blast
  define topic' where
    "topic' = topic\<lparr>MessageCount := MessageCount topic + 1, MessageHistory := hh\<rparr>"
  have s: "step (OpPublish t m sender now) ps = Inr (ps', [Published t ?e])"
    using r(1) by simp
  have tp: "\<And>t'. map_of (topics ps') t' = (if t' = t then Some topic' else map_of (topics ps) t')"
    by (simp add: r(5) update_conv' topic'_def)
  have w': "well_formed ps'"
  proof (rule wfI)
    fix t' tp' assume "map_of (topics ps') t' = Some tp'"
    then show "rb_inv (MessageHistory tp')"
      using wf_topic[OF w, of t' tp'] r(2) by (auto simp: tp topic'_def split: if_splits)
  next
    fix t' tp' k s assume a: "map_of (topics ps') t' = Some tp'" "(k, s) \<in> set (Subscribers tp')"
    show "sub_ClientID s = k \<and> sub_Client s = k \<and> map_of (clients ps') k \<noteq> None"
    proof (cases "t' = t")
      case True
      then have "(k, s) \<in> set (Subscribers topic)" using a by (auto simp: tp topic'_def)
      then show ?thesis using wf_sub[OF w Some, of k s] r(7) by simp
    next
      case False
      then show ?thesis using wf_sub[OF w, of t' tp' k s] a r(7) by (auto simp: tp)
    qed
  next
    fix k cl' assume "map_of (clients ps') k = Some cl'"
    then show "rb_inv (Buffer cl')" using r(8) by blast
  qed
  have s': "\<And>c' t'. subscribed ps' c' t' \<longleftrightarrow> subscribed ps c' t'"
    using Some by (auto simp: subscribed_def tp topic'_def)
  have e': "edges ps'"
    using e s' by (simp add: edges_def r(6))
  have cap: "capacity (MessageHistory topic) = TopicHistoryBufferSize"
    and con: "contents (MessageHistory topic) =
              last_k (nat TopicHistoryBufferSize) (since_created t lg)"
    using h Some by (simp_all add: hist_inv_def)
  have h': "hist_inv ps' (lg @ [Published t ?e])"
    unfolding hist_inv_def
  proof (intro allI impI)
    fix t' tp' assume a: "map_of (topics ps') t' = Some tp'"
    show "capacity (MessageHistory tp') = TopicHistoryBufferSize \<and>
          contents (MessageHistory tp') =
            last_k (nat TopicHistoryBufferSize) (since_created t' (lg @ [Published t ?e]))"
    proof (cases "t' = t")
      case True
      then have "tp' = topic'" using a by (simp add: tp)
      moreover have "contents hh = last_k (nat TopicHistoryBufferSize) (since_created t lg @ [?e])"
        using r(4) by (simp add: cap con last_k_snoc TopicHistoryBufferSize_def)
      ultimately show ?thesis using True r(3) cap
        by (simp add: topic'_def since_created_Published)
    next
      case False
      then show ?thesis using a h by (simp add: tp hist_inv_def since_created_Published)
    qed
  qed
  show ?thesis using s w' e' h' by (simp add: core_inv_def)
qed

lemma step_DeleteTopic:
  assumes "core_inv ps lg"
  shows "\<exists>ps' new. step (OpDeleteTopic name now newid) ps = Inr (ps', new) \<and> core_inv ps' (lg @ new)"
proof (cases "map_of (topics ps) name")
  case None
  then show ?thesis using assms by (simp add: DeleteTopic_def)
next
  case (Some topic)
  have w: "well_formed ps" and e: "edges ps" and h: "hist_inv ps lg" using assms by (simp_all add: core_inv_def)
  from DeleteTopic_effect[OF w Some, of now newid] obtain ps' where
    r: "DeleteTopic name now newid ps = Inr (None, ps')"
      "topics ps' = AList.delete name (topics ps)" "clients ps' = clients ps"
      "\<forall>c t. mem (clientTopics ps') c t \<longleftrightarrow>
               mem (clientTopics ps) c t \<and> \<not> (t = name \<and> c \<in> fst ` set (Subscribers topic))"
      "all_true (clientTopics ps) \<longrightarrow> all_true (clientTopics ps')"
    by blast
  have s: "step (OpDeleteTopic name now newid) ps = Inr (ps', [])" using r(1) by simp
  have tp: "\<And>t'. map_of (topics ps') t' = (if t' = name then None else map_of (topics ps) t')"
    by (simp add: r(2) delete_conv')
  have w': "well_formed ps'"
  proof (rule wfI)
    fix t' tp' assume "map_of (topics ps') t' = Some tp'"
    then show "rb_inv (MessageHistory tp')"
      using wf_topic[OF w, of t' tp'] by (auto simp: tp split: if_splits)
  next
    fix t' tp' k s assume a: "map_of (topics ps') t' = Some tp'" "(k, s) \<in> set (Subscribers tp')"
    then show "sub_ClientID s = k \<and> sub_Client s = k \<and> map_of (clients ps') k \<noteq> None"
      using wf_sub[OF w, of t' tp' k s] by (auto simp: tp r(3) split: if_splits)
  next
    fix k cl' assume "map_of (clients ps') k = Some cl'"
    then show "rb_inv (Buffer cl')" using wf_client[OF w, of k cl'] by (simp add: r(3))
  qed
  have e': "edges ps'"
    unfolding edges_def
  proof (intro conjI allI)
    fix c t
    show "mem (clientTopics ps') c t \<longleftrightarrow> subscribed ps' c t"
    proof (cases "t = name")
      case True
      have "mem (clientTopics ps) c name \<longleftrightarrow> c \<in> fst ` set (Subscribers topic)"
        using e Some by (simp add: edges_def subscribed_def)
      then show ?thesis using True r(4) by (simp add: subscribed_def tp)
    next
      case False
      then show ?thesis using e r(4) by (simp add: edges_def subscribed_def tp)
    qed
  next
    show "all_true (clientTopics ps')" using e r(5) by (simp add: edges_def)
  qed
  have h': "hist_inv ps' lg"
    using h by (auto simp: hist_inv_def tp split: if_splits)
  show ?thesis using s w' e' h' by (simp add: core_inv_def)
qed

lemma step_Disconnect:
  assumes "core_inv ps lg"
  shows "\<exists>ps' new. step (OpDisconnect c) ps = Inr (ps', new) \<and> core_inv ps' (lg @ new)"
proof -
  have w: "well_formed ps" and e: "edges ps" and h: "hist_inv ps lg" using assms by (simp_all add: core_inv_def)
  define ps1 where
    "ps1 = (case map_of (clients ps) c of
              Some client \<Rightarrow>
                ps\<lparr>clients := AList.update c (client\<lparr>Connected := False\<rparr>) (clients ps)\<rparr>
            | None \<Rightarrow> ps)"
  define ts where
    "ts = (case map_of (clientTopics ps) c of None \<Rightarrow> [] | Some m \<Rightarrow> map fst m)"
  define ps' where "ps' = DisconnectClient c ps"
  have f1: "topics ps1 = topics ps" "clientTopics ps1 = clientTopics ps"
    by (simp_all add: ps1_def split: option.splits)
  have c1: "\<And>k. map_of (clients ps1) k = None \<longleftrightarrow> map_of (clients ps) k = None"
    by (auto simp: ps1_def update_conv' split: option.splits)
  have b1: "\<And>k cl'. map_of (clients ps1) k = Some cl' \<Longrightarrow> rb_inv (Buffer cl')"
  proof -
    fix k cl' assume a: "map_of (clients ps1) k = Some cl'"
    show "rb_inv (Buffer cl')"
    proof (cases "map_of (clients ps) c")
      case None
      then show ?thesis using a wf_client[OF w, of k cl'] by (simp add: ps1_def)
    next
      case (Some client)
      then show ?thesis
        using a wf_client[OF w, of k cl'] wf_client[OF w Some]
        by (auto simp: ps1_def update_conv' split: if_splits)
    qed
  qed
  have d: "ps' = (case map_of (clientTopics ps) c of
                    None \<Rightarrow> ps1
                  | Some m \<Rightarrow>
                      Disconnect_loop c (map fst m)
                        (ps1\<lparr>clientTopics := AList.delete c (clientTopics ps1)\<rparr>))"
    by (simp add: ps'_def DisconnectClient_def Let_def ps1_def[symmetric] f1)
  have cl: "clients ps' = clients ps1"
    by (simp add: d Disconnect_loop_frame split: option.splits)
  have ct: "clientTopics ps' = AList.delete c (clientTopics ps)"
  proof (cases "map_of (clientTopics ps) c")
    case None
    then have "c \<notin> fst ` set (clientTopics ps)" by (simp add: map_of_eq_None_iff)
    then show ?thesis using None by (simp add: d f1)
  next
    case (Some m)
    then show ?thesis by (simp add: d Disconnect_loop_frame f1)
  qed
  have tp: "\<And>t. map_of (topics ps') t =
              map_option
                (\<lambda>topic. if t \<in> set ts
                         then topic\<lparr>Subscribers := AList.delete c (Subscribers topic)\<rparr>
                         else topic)
                (map_of (topics ps) t)"
    by (cases "map_of (clientTopics ps) c")
       (simp_all add: d ts_def Disconnect_loop_topics f1 option.map_ident)
  have w': "well_formed ps'"
  proof (rule wfI)
    fix t tp' assume "map_of (topics ps') t = Some tp'"
    then show "rb_inv (MessageHistory tp')"
      using wf_topic[OF w, of t] by (auto simp: tp split: if_splits)
  next
    fix t tp' k s assume a: "map_of (topics ps') t = Some tp'" "(k, s) \<in> set (Subscribers tp')"
    have "\<exists>topic. map_of (topics ps) t = Some topic \<and>
            set (Subscribers tp') \<subseteq> set (Subscribers topic)"
    proof (cases "map_of (topics ps) t")
      case None
      then show ?thesis using a(1) by (simp add: tp)
    next
      case (Some z)
      then show ?thesis
        using a(1) set_delete_subset[of c "Subscribers z"] by (auto simp: tp split: if_splits)
    qed
    then obtain topic where t0: "map_of (topics ps) t = Some topic"
      and "set (Subscribers tp') \<subseteq> set (Subscribers topic)"
      by blast
    then have "(k, s) \<in> set (Subscribers topic)" using a(2) by blast
    then show "sub_ClientID s = k \<and> sub_Client s = k \<and> map_of (clients ps') k \<noteq> None"
      using wf_sub[OF w t0, of k s] c1[of k] by (simp add: cl)
  next
    fix k cl' assume "map_of (clients ps') k = Some cl'"
    then show "rb_inv (Buffer cl')" using b1[of k cl'] by (simp add: cl)
  qed
  have ms: "\<And>t. mem (clientTopics ps) c t \<Longrightarrow> t \<in> set ts"
    by (auto simp: mem_def ts_def split: option.splits dest: map_of_SomeD intro: rev_image_eqI)
  have e': "edges ps'"
    unfolding edges_def
  proof (intro conjI allI)
    fix c' t
    have eq: "mem (clientTopics ps) c' t \<longleftrightarrow> subscribed ps c' t"
      using e by (simp add: edges_def)
    show "mem (clientTopics ps') c' t \<longleftrightarrow> subscribed ps' c' t"
    proof (cases "c' = c")
      case False
      then have "subscribed ps' c' t \<longleftrightarrow> subscribed ps c' t"
        by (cases "map_of (topics ps) t") (auto simp: subscribed_def tp keys_delete)
      then show ?thesis using False eq by (simp add: ct mem_delete_client)
    next
      case True
      have "\<not> subscribed ps' c t"
      proof (cases "t \<in> set ts")
        case True
        then show ?thesis
          by (cases "map_of (topics ps) t") (auto simp: subscribed_def tp keys_delete)
      next
        case False
        then have "\<not> subscribed ps c t" using ms[of t] e by (auto simp: edges_def)
        then show ?thesis using False
          by (cases "map_of (topics ps) t") (auto simp: subscribed_def tp)
      qed
      then show ?thesis using True by (simp add: ct mem_delete_client)
    qed
  next
    show "all_true (clientTopics ps')" using e all_true_delete by (simp add: edges_def ct)
  qed
  have h': "hist_inv ps' lg"
    unfolding hist_inv_def
  proof (intro allI impI)
    fix t tp' assume a: "map_of (topics ps') t = Some tp'"
    then obtain topic where "map_of (topics ps) t = Some topic"
      "MessageHistory tp' = MessageHistory topic"
      by (auto simp: tp split: if_splits)
    then show "capacity (MessageHistory tp') = TopicHistoryBufferSize \<and>
          contents (MessageHistory tp') = last_k (nat TopicHistoryBufferSize) (since_created t lg)"
      using h by (simp add: hist_inv_def)
  qed
  show ?thesis using w' e' h' by (simp add: core_inv_def ps'_def)
qed

lemma step_Receive:
  assumes "core_inv ps lg"
  shows "\<exists>ps' new. step (OpReceive r) ps = Inr (ps', new) \<and> core_inv ps' (lg @ new)"
proof -
  have f: "topics (receive r ps) = topics ps" "clients (receive r ps) = clients ps"
    "clientTopics (receive r ps) = clientTopics ps"
    by (simp_all add: receive_def split: option.splits)
  have "core_inv (receive r ps) lg"
    using assms by (simp add: core_inv_def well_formed_def edges_def hist_inv_def subscribed_def f)
  then show ?thesis by simp
qed

lemma step_inv:
  assumes "core_inv ps lg"
  shows "\<exists>ps' new. step x ps = Inr (ps', new) \<and> core_inv ps' (lg @ new)"
proof (cases x)
  case (OpCreateTopic name now)
  then show ?thesis using step_CreateTopic[OF assms] by simp
next
  case (OpDeleteTopic name now newid)
  then show ?thesis using step_DeleteTopic[OF assms] by simp
next
  case (OpSubscribe c t n ch now)
  then show ?thesis using step_Subscribe[OF assms] by simp
next
  case (OpUnsubscribe c t)
  then show ?thesis using step_Unsubscribe[OF assms] by simp
next
  case (OpPublish t m sender now)
  then show ?thesis using step_Publish[OF assms] by simp
next
  case (OpDisconnect c)
  then show ?thesis using step_Disconnect[OF assms] by simp
next
  case (OpReceive r)
  then show ?thesis using step_Receive[OF assms] by simp
qed

lemma run_inv:
  "core_inv ps lg \<Longrightarrow> \<exists>ps' lg'. run xs (ps, lg) = Inr (ps', lg') \<and> core_inv ps' lg'"
proof (induction xs arbitrary: ps lg)
  case Nil
  then show ?case by simp
next
  case (Cons x xs)
  from step_inv[OF Cons.prems, of x] obtain ps1 new where
    s: "step x ps = Inr (ps1, new)" "core_inv ps1 (lg @ new)"
    by blast
  from Cons.IH[OF s(2)] show ?case using s(1) by simp
qed

lemma echo_run_facts:
  "map_sum id
     (\<lambda>(ps, lg). (map_of (topics ps) ''echo-topic'' \<noteq> None,
                  mem (clientTopics ps) ''client1'' ''echo-topic'', lg))
     (run echo_ops (init echo_chans, [])) =
   Inr (True, True, [Created ''echo-topic'', Published ''echo-topic'' echo_event])"
  by (simp add: echo_ops_def echo_chans_def init_def echo_event_def CreateTopic_def Subscribe_def
      Publish_def NewRingBuffer_def TopicHistoryBufferSize_def DefaultBufferSize_def Push_def
      index_set_def rem_nonneg offer_def GetLastN_def Let_def mem_def)





text \<open>
  Claim C5. After every sequence of operations started on a new system, the history ring
  of every existing topic t holds at most 1000 events, as many as its size says, and its
  contents are the last 1000 (or fewer, if there are not as many) of the events published
  to t since t was created, oldest first: a suffix of the sequence of all events published
  to t.
\<close>

theorem history_after_run:
  "\<exists>ps lg. run ops (init cs, []) = Inr (ps, lg) \<and>
     (\<forall>t topic. map_of (topics ps) t = Some topic \<longrightarrow>
        size_rb (MessageHistory topic) \<le> 1000 \<and>
        int (length (contents (MessageHistory topic))) = size_rb (MessageHistory topic) \<and>
        contents (MessageHistory topic) = last_k 1000 (since_created t lg) \<and>
        suffix (contents (MessageHistory topic)) (published t lg))"
proof -
  from run_inv[OF inv_init, of ops cs] obtain ps lg where
    r: "run ops (init cs, []) = Inr (ps, lg)" "core_inv ps lg"
    by blast
  have "\<forall>t topic. map_of (topics ps) t = Some topic \<longrightarrow>
        size_rb (MessageHistory topic) \<le> 1000 \<and>
        int (length (contents (MessageHistory topic))) = size_rb (MessageHistory topic) \<and>
        contents (MessageHistory topic) = last_k 1000 (since_created t lg) \<and>
        suffix (contents (MessageHistory topic)) (published t lg)"
  proof (intro allI impI)
    fix t topic assume a: "map_of (topics ps) t = Some topic"
    have "well_formed ps" using r(2) by (simp add: core_inv_def)
    then have i: "rb_inv (MessageHistory topic)" using wf_topic[of ps t topic] a by simp
    have c: "capacity (MessageHistory topic) = 1000"
      and k: "contents (MessageHistory topic) = last_k 1000 (since_created t lg)"
      using r(2) a by (simp_all add: core_inv_def hist_inv_def TopicHistoryBufferSize_def)
    have s: "0 \<le> size_rb (MessageHistory topic)" "size_rb (MessageHistory topic) \<le> 1000"
      using i c by (simp_all add: rb_inv_def)
    have "suffix (last_k 1000 (since_created t lg)) (published t lg)"
      using suffix_last_k suffix_since_created suffix_order.trans by blast
    then show "size_rb (MessageHistory topic) \<le> 1000 \<and>
        int (length (contents (MessageHistory topic))) = size_rb (MessageHistory topic) \<and>
        contents (MessageHistory topic) = last_k 1000 (since_created t lg) \<and>
        suffix (contents (MessageHistory topic)) (published t lg)"
      using s k length_contents[OF s(1)] by simp
  qed
  then show ?thesis using r(1) by blast
qed

theorem history_after_run_witness:
  "\<exists>ps lg topic. run echo_ops (init echo_chans, []) = Inr (ps, lg) \<and>
     map_of (topics ps) ''echo-topic'' = Some topic \<and>
     published ''echo-topic'' lg = [echo_event] \<and>
     contents (MessageHistory topic) = [echo_event] \<and>
     size_rb (MessageHistory topic) = 1"
proof -
  from history_after_run[of echo_ops echo_chans] obtain ps lg where
    r: "run echo_ops (init echo_chans, []) = Inr (ps, lg)"
      "\<forall>t topic. map_of (topics ps) t = Some topic \<longrightarrow>
        size_rb (MessageHistory topic) \<le> 1000 \<and>
        int (length (contents (MessageHistory topic))) = size_rb (MessageHistory topic) \<and>
        contents (MessageHistory topic) = last_k 1000 (since_created t lg) \<and>
        suffix (contents (MessageHistory topic)) (published t lg)"
    by blast
  have l: "lg = [Created ''echo-topic'', Published ''echo-topic'' echo_event]"
    and "map_of (topics ps) ''echo-topic'' \<noteq> None"
    using echo_run_facts by (simp_all add: r(1))
  then obtain topic where t: "map_of (topics ps) ''echo-topic'' = Some topic" by blast
  from r(2) t have
    c: "contents (MessageHistory topic) = last_k 1000 (since_created ''echo-topic'' lg)"
    and n: "int (length (contents (MessageHistory topic))) = size_rb (MessageHistory topic)"
    by blast+
  have c': "contents (MessageHistory topic) = [echo_event]"
    using c by (simp add: l since_created_def last_k_def)
  have "size_rb (MessageHistory topic) = 1" using n by (simp add: c')
  then show ?thesis using r(1) t l c' by auto
qed

end
